theory Spec2Isabelle
  imports Main "HOL-Library.Word" "HOL-Library.Sublist" "HOL-Library.Multiset"
begin

section \<open>Values and errors\<close>

text \<open>
  The service (\<^verbatim>\<open>src/spr/mongo/main.py\<close>) handles Tracee events as dynamically typed
  JSON values: \<^verbatim>\<open>json.loads\<close> produces them, the document store keeps them, the
  aggregation pipelines and the projections read them. A value is \<^verbatim>\<open>None\<close>, a boolean,
  an integer, a string, a list or a dictionary. Dictionaries are association lists in key
  order; strings inside documents are kept as their UTF-8 bytes, which preserves equality
  and the substring relation. Floating-point numbers are outside the model.
\<close>

datatype bson =
    BNull
  | BBool bool
  | BInt int
  | BStr string
  | BArr "bson list"
  | BDoc "(string \<times> bson) list"

type_synonym doc = "(string \<times> bson) list"

text \<open>A database maps collection names to the stored documents, in stored order.\<close>

type_synonym database = "string \<rightharpoonup> doc list"

text \<open>
  The failures of the three endpoints. The first four are the \<^verbatim>\<open>HTTPException\<close>s the
  code raises on purpose (status 400 for the extension, 500 for a failed bulk write, 404
  for an unknown collection, 400 for a missing indicator); the others are Python
  exceptions. The code catches two of them: \<open>JSONDecodeError\<close>, on which the upload loop
  goes on to the next line, and \<open>BulkWriteError\<close>, which \<^verbatim>\<open>upload_tracee\<close> turns into
  \<open>IngestionFailed\<close>. No handler catches the others.
\<close>

datatype error =
    UnsupportedFormat
  | IngestionFailed
  | CollectionNotFound
  | MissingIndicator
  | JSONDecodeError
  | BulkWriteError
  | OverflowError
  | UnicodeDecodeError
  | TypeError
  | AttributeError
  | ValueError

section \<open>Ingestion: \<^verbatim>\<open>upload_tracee\<close>\<close>

subsection \<open>Bytes to text: \<^verbatim>\<open>chunk.decode("utf-8")\<close>\<close>

type_synonym byte = "8 word"

text \<open>A Python \<^verbatim>\<open>str\<close> is a sequence of Unicode code points.\<close>

type_synonym unicode = "nat list"

definition is_cont :: "byte \<Rightarrow> bool" where
  "is_cont b = (0x80 \<le> b \<and> b \<le> 0xBF)"

definition cont_bits :: "byte \<Rightarrow> nat" where
  "cont_bits b = unat b mod 64"

text \<open>
  The strict UTF-8 decoder: \<open>None\<close> is \<^verbatim>\<open>UnicodeDecodeError\<close>. Overlong forms,
  surrogates, code points above U+10FFFF and truncated sequences are rejected.
\<close>

fun utf8_decode :: "byte list \<Rightarrow> unicode option" where
  "utf8_decode [] = Some []"
| "utf8_decode (b0 # bs) =
     (if b0 < 0x80 then map_option (Cons (unat b0)) (utf8_decode bs)
      else if 0xC2 \<le> b0 \<and> b0 \<le> 0xDF then
        (case bs of
           b1 # r \<Rightarrow>
             if is_cont b1
             then map_option (Cons ((unat b0 mod 32) * 64 + cont_bits b1)) (utf8_decode r)
             else None
         | _ \<Rightarrow> None)
      else if 0xE0 \<le> b0 \<and> b0 \<le> 0xEF then
        (case bs of
           b1 # b2 # r \<Rightarrow>
             if is_cont b1 \<and> is_cont b2
                \<and> (if b0 = 0xE0 then 0xA0 \<le> b1 else True)
                \<and> (if b0 = 0xED then b1 \<le> 0x9F else True)
             then map_option
                    (Cons ((unat b0 mod 16) * 4096 + cont_bits b1 * 64 + cont_bits b2))
                    (utf8_decode r)
             else None
         | _ \<Rightarrow> None)
      else if 0xF0 \<le> b0 \<and> b0 \<le> 0xF4 then
        (case bs of
           b1 # b2 # b3 # r \<Rightarrow>
             if is_cont b1 \<and> is_cont b2 \<and> is_cont b3
                \<and> (if b0 = 0xF0 then 0x90 \<le> b1 else True)
                \<and> (if b0 = 0xF4 then b1 \<le> 0x8F else True)
             then map_option
                    (Cons ((unat b0 mod 8) * 262144 + cont_bits b1 * 4096
                           + cont_bits b2 * 64 + cont_bits b3))
                    (utf8_decode r)
             else None
         | _ \<Rightarrow> None)
      else None)"

subsection \<open>Text to lines: \<^verbatim>\<open>str.splitlines()\<close>\<close>

text \<open>
  Python splits at LF, VT, FF, CR, FS, GS, RS, NEL, LS and PS, takes CR LF as one break,
  and returns no empty last line.
\<close>

definition is_linebreak :: "nat \<Rightarrow> bool" where
  "is_linebreak c = (c \<in> {0x0A, 0x0B, 0x0C, 0x0D, 0x1C, 0x1D, 0x1E, 0x85, 0x2028, 0x2029})"

definition after_break :: "unicode \<Rightarrow> unicode" where
  "after_break rest =
     (case rest of
        [] \<Rightarrow> []
      | c # r \<Rightarrow>
          (if c = 0x0D
           then (case r of [] \<Rightarrow> [] | d # r' \<Rightarrow> if d = 0x0A then r' else r)
           else r))"

lemma length_after_break: "rest \<noteq> [] \<Longrightarrow> length (after_break rest) < length rest"
  by (auto simp: after_break_def split: list.splits)

function splitlines :: "unicode \<Rightarrow> unicode list" where
  "splitlines s =
     (if s = [] then []
      else takeWhile (\<lambda>c. \<not> is_linebreak c) s
             # splitlines (after_break (dropWhile (\<lambda>c. \<not> is_linebreak c) s)))"
  by pat_completeness auto
termination
proof (relation "measure length")
  show "wf (measure length)" by simp
next
  fix s :: unicode
  assume "s \<noteq> []"
  let ?r = "dropWhile (\<lambda>c. \<not> is_linebreak c) s"
  show "(after_break ?r, s) \<in> measure length"
  proof (cases "?r = []")
    case True
    then have "after_break ?r = []" by (simp only: after_break_def list.case)
    with \<open>s \<noteq> []\<close> show ?thesis by simp
  next
    case False
    from length_after_break[OF False] have "length (after_break ?r) < length ?r" .
    also have "length ?r \<le> length s" by (rule length_dropWhile_le)
    finally show ?thesis by simp
  qed
qed

declare splitlines.simps [simp del]

subsection \<open>The bulk write: \<^verbatim>\<open>collection.insert_many(batch)\<close>\<close>

text \<open>
  The driver first checks that every element of the batch is a dictionary
  (\<^verbatim>\<open>TypeError\<close> otherwise, before anything is written). It then encodes the documents
  for the wire, where a document it cannot encode raises an exception of the driver's own
  (\<^verbatim>\<open>OverflowError\<close> for an integer beyond eight bytes, say), again before anything of
  the batch is written. The server then writes the documents in order and stops at the
  first one it rejects (\<^verbatim>\<open>BulkWriteError\<close>); the documents before it stay written.
  Which documents do not encode and which the server rejects (a duplicate key, say) is the
  driver's and the store's business: \<open>encode_error d\<close> and \<open>write_error coll d\<close> are
  parameters of the model.
\<close>

fun is_document :: "bson \<Rightarrow> bool" where
  "is_document (BDoc kvs) = True"
| "is_document _ = False"

fun doc_fields :: "bson \<Rightarrow> doc" where
  "doc_fields (BDoc kvs) = kvs"
| "doc_fields _ = []"

fun encode_all :: "(doc \<Rightarrow> error option) \<Rightarrow> doc list \<Rightarrow> error option" where
  "encode_all encode_error [] = None"
| "encode_all encode_error (d # ds) =
     (case encode_error d of
        Some e \<Rightarrow> Some e
      | None \<Rightarrow> encode_all encode_error ds)"

fun insert_ordered ::
  "(doc list \<Rightarrow> doc \<Rightarrow> bool) \<Rightarrow> doc list \<Rightarrow> doc list \<Rightarrow> error option \<times> doc list" where
  "insert_ordered write_error coll [] = (None, coll)"
| "insert_ordered write_error coll (d # ds) =
     (if write_error coll d then (Some BulkWriteError, coll)
      else insert_ordered write_error (coll @ [d]) ds)"

definition insert_many ::
  "(doc \<Rightarrow> error option) \<Rightarrow> (doc list \<Rightarrow> doc \<Rightarrow> bool) \<Rightarrow> doc list \<Rightarrow> bson list
     \<Rightarrow> error option \<times> doc list" where
  "insert_many encode_error write_error coll batch =
     (if \<not> list_all is_document batch then (Some TypeError, coll)
      else
        (case encode_all encode_error (map doc_fields batch) of
           Some e \<Rightarrow> (Some e, coll)
         | None \<Rightarrow> insert_ordered write_error coll (map doc_fields batch)))"

subsection \<open>The upload loop\<close>

record upload_state =
  batch :: "bson list"
  inserted_count :: nat
  stored :: "doc list"

definition batch_size :: nat where
  "batch_size = 1000"

definition CHUNK_SIZE :: nat where
  "CHUNK_SIZE = 1024 * 1024"

text \<open>
  The body of \<^verbatim>\<open>for line in lines\<close>. \<open>loads\<close> is \<^verbatim>\<open>json.loads\<close>, a parameter of the
  model: it returns a value or raises. The loop catches \<^verbatim>\<open>JSONDecodeError\<close>
  (\<^verbatim>\<open>continue\<close>); any other exception of the parser (\<^verbatim>\<open>ValueError\<close> for a number of
  too many digits, \<^verbatim>\<open>RecursionError\<close>) leaves the loop.
\<close>

fun process_lines ::
  "(unicode \<Rightarrow> error + bson) \<Rightarrow> (doc \<Rightarrow> error option) \<Rightarrow> (doc list \<Rightarrow> doc \<Rightarrow> bool)
     \<Rightarrow> upload_state \<Rightarrow> unicode list \<Rightarrow> error option \<times> upload_state" where
  "process_lines loads encode_error write_error st [] = (None, st)"
| "process_lines loads encode_error write_error st (line # lines) =
     (case loads line of
        Inl e \<Rightarrow>
          (if e = JSONDecodeError then process_lines loads encode_error write_error st lines
           else (Some e, st))
      | Inr event \<Rightarrow>
          (let st1 = st\<lparr>batch := batch st @ [event]\<rparr> in
           if length (batch st1) \<ge> batch_size then
             (case insert_many encode_error write_error (stored st1) (batch st1) of
                (Some e, coll) \<Rightarrow> (Some e, st1\<lparr>stored := coll\<rparr>)
              | (None, coll) \<Rightarrow>
                  process_lines loads encode_error write_error
                    (st1\<lparr>stored := coll,
                         inserted_count := inserted_count st1 + length (batch st1),
                         batch := []\<rparr>)
                    lines)
           else process_lines loads encode_error write_error st1 lines))"

text \<open>
  The \<^verbatim>\<open>while True\<close> loop: \<^verbatim>\<open>file.read(n)\<close> returns the next \<open>n\<close> bytes (fewer at
  the end of the stream, none after it), and each chunk is decoded and split on its own.
\<close>

function read_loop ::
  "nat \<Rightarrow> (unicode \<Rightarrow> error + bson) \<Rightarrow> (doc \<Rightarrow> error option) \<Rightarrow> (doc list \<Rightarrow> doc \<Rightarrow> bool)
     \<Rightarrow> upload_state \<Rightarrow> byte list \<Rightarrow> error option \<times> upload_state" where
  "read_loop n loads encode_error write_error st stream =
     (if take n stream = [] then (None, st)
      else
        (case utf8_decode (take n stream) of
           None \<Rightarrow> (Some UnicodeDecodeError, st)
         | Some text \<Rightarrow>
             (case process_lines loads encode_error write_error st (splitlines text) of
                (Some e, st') \<Rightarrow> (Some e, st')
              | (None, st') \<Rightarrow>
                  read_loop n loads encode_error write_error st' (drop n stream))))"
  by pat_completeness auto
termination
  by (relation "measure (\<lambda>(n, loads, encode_error, write_error, st, stream). length stream)")
    auto

declare read_loop.simps [simp del]

text \<open>
  \<^verbatim>\<open>file.filename.lower().endswith(allowed_extensions)\<close>. \<open>lower\<close> maps the ASCII capitals,
  the only characters whose lower case is a letter of the three extensions.
\<close>

definition allowed_extensions :: "string list" where
  "allowed_extensions = [''.json'', ''.jsonl'', ''.log'']"

definition lower :: "string \<Rightarrow> string" where
  "lower s =
     map (\<lambda>c. if 65 \<le> (of_char c :: nat) \<and> (of_char c :: nat) \<le> 90
               then char_of ((of_char c :: nat) + 32) else c) s"

definition endswith :: "string \<Rightarrow> string list \<Rightarrow> bool" where
  "endswith s exts = list_ex (\<lambda>ext. suffix ext s) exts"

text \<open>Insert the remaining batch, after the loop.\<close>

definition flush ::
  "(doc \<Rightarrow> error option) \<Rightarrow> (doc list \<Rightarrow> doc \<Rightarrow> bool) \<Rightarrow> upload_state
     \<Rightarrow> error option \<times> upload_state" where
  "flush encode_error write_error st =
     (if batch st \<noteq> [] then
        (case insert_many encode_error write_error (stored st) (batch st) of
           (Some e, coll) \<Rightarrow> (Some e, st\<lparr>stored := coll\<rparr>)
         | (None, coll) \<Rightarrow>
             (None, st\<lparr>stored := coll,
                        inserted_count := inserted_count st + length (batch st)\<rparr>))
      else (None, st))"

text \<open>
  The endpoint. \<open>collection_name\<close> is the name made from the clock and a random suffix;
  \<^verbatim>\<open>db[collection_name]\<close> with its indexes creates the collection. The result is the
  response (\<^verbatim>\<open>collection\<close>, \<^verbatim>\<open>documents_inserted\<close>) or the exception, and the database
  afterwards.
\<close>

definition upload_tracee ::
  "(unicode \<Rightarrow> error + bson) \<Rightarrow> (doc \<Rightarrow> error option) \<Rightarrow> (doc list \<Rightarrow> doc \<Rightarrow> bool)
     \<Rightarrow> database \<Rightarrow> string \<Rightarrow> string \<Rightarrow> byte list \<Rightarrow> (error + string \<times> nat) \<times> database" where
  "upload_tracee loads encode_error write_error db collection_name filename stream =
     (if \<not> endswith (lower filename) allowed_extensions then (Inl UnsupportedFormat, db)
      else
        (let st0 = \<lparr>batch = [], inserted_count = 0,
                    stored = (case db collection_name of None \<Rightarrow> [] | Some c \<Rightarrow> c)\<rparr>;
             (e, st) =
               (case read_loop CHUNK_SIZE loads encode_error write_error st0 stream of
                  (Some e, st1) \<Rightarrow> (Some e, st1)
                | (None, st1) \<Rightarrow> flush encode_error write_error st1);
             db' = db(collection_name \<mapsto> stored st)
         in case e of
              Some BulkWriteError \<Rightarrow> (Inl IngestionFailed, db')
            | Some x \<Rightarrow> (Inl x, db')
            | None \<Rightarrow> (Inr (collection_name, inserted_count st), db')))"

section \<open>The document store\<close>

text \<open>
  The endpoints \<^verbatim>\<open>get_stats\<close> and \<^verbatim>\<open>get_specific_data\<close> hand aggregation pipelines and
  queries to MongoDB. The stages and operators they use are modelled here after the
  store's documented behaviour, on a collection as the list of its documents in stored
  order.
\<close>

subsection \<open>Fields and equality matches\<close>

text \<open>\<^verbatim>\<open>d.get(k)\<close> of a Python dictionary: \<^verbatim>\<open>None\<close> for a missing key.\<close>

definition dict_get :: "doc \<Rightarrow> string \<Rightarrow> bson" where
  "dict_get d k = (case map_of d k of None \<Rightarrow> BNull | Some v \<Rightarrow> v)"

text \<open>
  A query condition \<^verbatim>\<open>{field: x}\<close> holds when the field's value equals \<open>x\<close>, or is an
  array with an element equal to \<open>x\<close>. A missing field matches nothing here (the code
  never queries for \<^verbatim>\<open>null\<close>).
\<close>

definition matches_eq :: "bson option \<Rightarrow> bson \<Rightarrow> bool" where
  "matches_eq v x =
     (case v of
        None \<Rightarrow> False
      | Some (BArr xs) \<Rightarrow> BArr xs = x \<or> x \<in> set xs
      | Some y \<Rightarrow> y = x)"

text \<open>
  A condition on a dotted path \<^verbatim>\<open>{"a.k": x}\<close>, given the value of \<open>a\<close>: the field \<open>k\<close> of
  an embedded document, or of some document in an embedded array.
\<close>

definition matches_sub :: "bson option \<Rightarrow> string \<Rightarrow> bson \<Rightarrow> bool" where
  "matches_sub v k x =
     (case v of
        Some (BDoc kvs) \<Rightarrow> matches_eq (map_of kvs k) x
      | Some (BArr xs) \<Rightarrow>
          list_ex (\<lambda>el. case el of BDoc kvs \<Rightarrow> matches_eq (map_of kvs k) x | _ \<Rightarrow> False) xs
      | _ \<Rightarrow> False)"

text \<open>
  \<^verbatim>\<open>{field: {"$elemMatch": cond}}\<close>: the field is an array and one of its elements
  satisfies the condition.
\<close>

definition elem_match :: "(bson \<Rightarrow> bool) \<Rightarrow> bson option \<Rightarrow> bool" where
  "elem_match cond v = (case v of Some (BArr xs) \<Rightarrow> list_ex cond xs | _ \<Rightarrow> False)"

subsection \<open>Pipeline stages\<close>

text \<open>\<^verbatim>\<open>{"$match": {"eventName": name}}\<close>\<close>

definition match_event :: "string \<Rightarrow> doc list \<Rightarrow> doc list" where
  "match_event name docs = filter (\<lambda>d. matches_eq (map_of d ''eventName'') (BStr name)) docs"

text \<open>Replace the value of a field that is present.\<close>

definition set_field :: "string \<Rightarrow> bson \<Rightarrow> doc \<Rightarrow> doc" where
  "set_field k x d = map (\<lambda>(k', v). if k' = k then (k', x) else (k', v)) d"

text \<open>
  \<^verbatim>\<open>{"$unwind": "$args"}\<close>: one output document for each element of the array, with the
  field replaced by the element. A document whose field is missing, \<^verbatim>\<open>null\<close> or an empty
  array gives none; a field that is not an array is taken as a one-element array.
\<close>

definition unwind_doc :: "string \<Rightarrow> doc \<Rightarrow> doc list" where
  "unwind_doc k d =
     (case map_of d k of
        None \<Rightarrow> []
      | Some BNull \<Rightarrow> []
      | Some (BArr xs) \<Rightarrow> map (\<lambda>x. set_field k x d) xs
      | Some v \<Rightarrow> [d])"

definition unwind :: "string \<Rightarrow> doc list \<Rightarrow> doc list" where
  "unwind k docs = concat (map (unwind_doc k) docs)"

text \<open>
  \<^verbatim>\<open>{"$unwind": "$args.value"}\<close>: the same on the field \<open>value\<close> of the embedded document
  \<open>args\<close>; when \<open>args\<close> is not a document the path is missing.
\<close>

definition unwind_sub_doc :: "string \<Rightarrow> string \<Rightarrow> doc \<Rightarrow> doc list" where
  "unwind_sub_doc a k d =
     (case map_of d a of
        Some (BDoc kvs) \<Rightarrow> map (\<lambda>kvs'. set_field a (BDoc kvs') d) (unwind_doc k kvs)
      | _ \<Rightarrow> [])"

definition unwind_sub :: "string \<Rightarrow> string \<Rightarrow> doc list \<Rightarrow> doc list" where
  "unwind_sub a k docs = concat (map (unwind_sub_doc a k) docs)"

text \<open>\<^verbatim>\<open>{"$match": {"args.name": name}}\<close>\<close>

definition match_arg :: "string \<Rightarrow> doc list \<Rightarrow> doc list" where
  "match_arg name docs =
     filter (\<lambda>d. matches_sub (map_of d ''args'') ''name'' (BStr name)) docs"

text \<open>
  The value of an expression \<^verbatim>\<open>"$a.k"\<close>, given the value of \<open>a\<close>: the field of an embedded
  document; through an array, the array of the values found in its elements.
\<close>

fun sub_path :: "string \<Rightarrow> bson \<Rightarrow> bson option" where
  "sub_path k (BDoc kvs) = map_of kvs k"
| "sub_path k (BArr xs) =
     Some (BArr (concat (map (\<lambda>x. case sub_path k x of None \<Rightarrow> [] | Some v \<Rightarrow> [v]) xs)))"
| "sub_path k v = None"

text \<open>The key of a \<^verbatim>\<open>$group\<close>: a missing value groups under \<^verbatim>\<open>null\<close>.\<close>

definition group_id :: "bson option \<Rightarrow> bson" where
  "group_id v = (case v of None \<Rightarrow> BNull | Some x \<Rightarrow> x)"

text \<open>
  \<^verbatim>\<open>{"$group": {"_id": key, "count": {"$sum": 1}}}\<close> followed by
  \<^verbatim>\<open>{"$sort": {"count": -1}}\<close>, on the list of the documents' keys. The store leaves the
  order of the groups, and of groups with equal counts after the sort, open; the model
  lists the groups in the order of their last member and sorts stably.
\<close>

definition group_count :: "bson list \<Rightarrow> (bson \<times> nat) list" where
  "group_count keys = map (\<lambda>k. (k, count_list keys k)) (remdups keys)"

definition sort_count_desc :: "(bson \<times> nat) list \<Rightarrow> (bson \<times> nat) list" where
  "sort_count_desc groups = sort_key (\<lambda>(k, c). - int c) groups"

subsection \<open>Cursors\<close>

text \<open>
  \<^verbatim>\<open>cursor.skip(offset).limit(limit)\<close>. The driver refuses a negative skip
  (\<^verbatim>\<open>ValueError\<close>); a limit of 0 is no limit; a negative limit asks for a single batch of
  at most \<open>\<bar>limit\<bar>\<close> documents (the server's own bound on a batch is not modelled).
\<close>

definition cursor :: "int \<Rightarrow> int \<Rightarrow> 'a list \<Rightarrow> error + 'a list" where
  "cursor offset limit xs =
     (if offset < 0 then Inl ValueError
      else if limit = 0 then Inr (drop (nat offset) xs)
      else Inr (take (nat \<bar>limit\<bar>) (drop (nat offset) xs)))"

section \<open>Aggregation: \<^verbatim>\<open>get_stats\<close>\<close>

subsection \<open>Python values\<close>

text \<open>Lists and dictionaries are not hashable: they cannot be dictionary keys.\<close>

fun hashable :: "bson \<Rightarrow> bool" where
  "hashable (BArr xs) = False"
| "hashable (BDoc kvs) = False"
| "hashable v = True"

text \<open>Equality of keys: \<^verbatim>\<open>True == 1\<close> and \<^verbatim>\<open>False == 0\<close> in Python.\<close>

fun key_int :: "bson \<Rightarrow> bson" where
  "key_int (BBool b) = BInt (if b then 1 else 0)"
| "key_int v = v"

definition py_eq :: "bson \<Rightarrow> bson \<Rightarrow> bool" where
  "py_eq a b = (key_int a = key_int b)"

text \<open>
  A dictionary with values of any hashable kind as keys, in insertion order.
  \<open>dict_set d k v\<close> is \<^verbatim>\<open>d[k] = v\<close>: a key that is already there keeps its place.
\<close>

type_synonym 'v pydict = "(bson \<times> 'v) list"

fun dict_set :: "'v pydict \<Rightarrow> bson \<Rightarrow> 'v \<Rightarrow> 'v pydict" where
  "dict_set [] k v = [(k, v)]"
| "dict_set ((k', v') # d) k v =
     (if py_eq k' k then (k', v) # d else (k', v') # dict_set d k v)"

text \<open>
  \<^verbatim>\<open>{item["_id"]: item["count"] for item in results}\<close>: a key that is not hashable raises
  \<^verbatim>\<open>TypeError\<close>.
\<close>

fun dict_of :: "nat pydict \<Rightarrow> (bson \<times> nat) list \<Rightarrow> error + nat pydict" where
  "dict_of d [] = Inr d"
| "dict_of d ((k, c) # items) =
     (if hashable k then dict_of (dict_set d k c) items else Inl TypeError)"

text \<open>Truth value of an object (\<^verbatim>\<open>if port\<close>).\<close>

fun truthy :: "bson \<Rightarrow> bool" where
  "truthy BNull = False"
| "truthy (BBool b) = b"
| "truthy (BInt i) = (i \<noteq> 0)"
| "truthy (BStr s) = (s \<noteq> [])"
| "truthy (BArr xs) = (xs \<noteq> [])"
| "truthy (BDoc kvs) = (kvs \<noteq> [])"

text \<open>Substring test on strings: \<open>contains p s\<close> is \<^verbatim>\<open>s in p\<close>.\<close>

fun contains :: "string \<Rightarrow> string \<Rightarrow> bool" where
  "contains [] s = (s = [])"
| "contains (c # p) s = (prefix s (c # p) \<or> contains p s)"

text \<open>
  \<^verbatim>\<open>s in x\<close> for a string \<open>s\<close>: a substring test on a string, membership in a list, key
  membership in a dictionary, \<^verbatim>\<open>TypeError\<close> on \<^verbatim>\<open>None\<close>, a boolean or a number.
\<close>

fun py_in :: "string \<Rightarrow> bson \<Rightarrow> error + bool" where
  "py_in s (BStr p) = Inr (contains p s)"
| "py_in s (BArr xs) = Inr (BStr s \<in> set xs)"
| "py_in s (BDoc kvs) = Inr (s \<in> fst ` set kvs)"
| "py_in s v = Inl TypeError"

text \<open>\<^verbatim>\<open>any(f(x) for x in xs)\<close>: stops at the first true element, or at an exception.\<close>

fun py_any :: "('a \<Rightarrow> error + bool) \<Rightarrow> 'a list \<Rightarrow> error + bool" where
  "py_any f [] = Inr False"
| "py_any f (x # xs) =
     (case f x of
        Inl e \<Rightarrow> Inl e
      | Inr b \<Rightarrow> if b then Inr True else py_any f xs)"

text \<open>\<^verbatim>\<open>[x for x in xs if f(x)]\<close>\<close>

fun py_filter :: "('a \<Rightarrow> error + bool) \<Rightarrow> 'a list \<Rightarrow> error + 'a list" where
  "py_filter f [] = Inr []"
| "py_filter f (x # xs) =
     (case f x of
        Inl e \<Rightarrow> Inl e
      | Inr b \<Rightarrow>
          (case py_filter f xs of
             Inl e \<Rightarrow> Inl e
           | Inr ys \<Rightarrow> Inr (if b then x # ys else ys)))"

text \<open>Decimal digits of an integer, as \<^verbatim>\<open>str\<close> prints them.\<close>

fun digits :: "nat \<Rightarrow> string" where
  "digits n =
     (if n < 10 then [''0123456789'' ! n]
      else digits (n div 10) @ [''0123456789'' ! (n mod 10)])"

declare digits.simps [simp del]

definition str_int :: "int \<Rightarrow> string" where
  "str_int i = (if i < 0 then CHR ''-'' # digits (nat (- i)) else digits (nat i))"

text \<open>
  \<^verbatim>\<open>str(x)\<close>, which is also what an f-string prints. For a list or a dictionary it is the
  \<^verbatim>\<open>repr\<close> of the value, whose quoting and escaping follow Python's Unicode tables:
  \<open>repr\<close> is a parameter of the model.
\<close>

fun py_str :: "(bson \<Rightarrow> string) \<Rightarrow> bson \<Rightarrow> string" where
  "py_str repr BNull = ''None''"
| "py_str repr (BBool b) = (if b then ''True'' else ''False'')"
| "py_str repr (BInt i) = str_int i"
| "py_str repr (BStr s) = s"
| "py_str repr v = repr v"

subsection \<open>The constants\<close>

definition SENSITIVE_PATHS :: "string list" where
  "SENSITIVE_PATHS = [''/etc/passwd'', ''/etc/shadow'', ''/root'', ''.ssh'']"

definition SHELL_BINARIES :: "string list" where
  "SHELL_BINARIES = [''/bin/sh'', ''/bin/bash'', ''sh'', ''bash'']"

subsection \<open>The pipelines\<close>

text \<open>\<^verbatim>\<open>syscall_pipeline\<close>: all events grouped by \<^verbatim>\<open>$eventName\<close>.\<close>

definition syscall_pipeline :: "doc list \<Rightarrow> (bson \<times> nat) list" where
  "syscall_pipeline coll =
     sort_count_desc (group_count (map (\<lambda>d. group_id (map_of d ''eventName'')) coll))"

text \<open>
  \<^verbatim>\<open>file_pipeline\<close>, \<^verbatim>\<open>exec_pipeline\<close> and \<^verbatim>\<open>ip_pipeline\<close> have one shape: match the
  event name, unwind \<^verbatim>\<open>args\<close>, match the argument name, group by \<^verbatim>\<open>$args.value\<close>, sort by
  count.
\<close>

definition arg_keys :: "string \<Rightarrow> string \<Rightarrow> doc list \<Rightarrow> bson list" where
  "arg_keys event name coll =
     map (\<lambda>d. group_id (case map_of d ''args'' of None \<Rightarrow> None | Some a \<Rightarrow> sub_path ''value'' a))
       (match_arg name (unwind ''args'' (match_event event coll)))"

definition arg_pipeline :: "string \<Rightarrow> string \<Rightarrow> doc list \<Rightarrow> (bson \<times> nat) list" where
  "arg_pipeline event name coll = sort_count_desc (group_count (arg_keys event name coll))"

definition file_pipeline :: "doc list \<Rightarrow> (bson \<times> nat) list" where
  "file_pipeline = arg_pipeline ''openat'' ''pathname''"

definition exec_pipeline :: "doc list \<Rightarrow> (bson \<times> nat) list" where
  "exec_pipeline = arg_pipeline ''execve'' ''pathname''"

definition ip_pipeline :: "doc list \<Rightarrow> (bson \<times> nat) list" where
  "ip_pipeline = arg_pipeline ''connect'' ''addr''"

text \<open>
  \<^verbatim>\<open>dns_pipeline\<close>: after the argument is selected, its value is unwound too, and the
  groups are keyed by \<^verbatim>\<open>$args.value.query\<close>.
\<close>

definition dns_keys :: "doc list \<Rightarrow> bson list" where
  "dns_keys coll =
     map (\<lambda>d. group_id
            (case map_of d ''args'' of
               None \<Rightarrow> None
             | Some a \<Rightarrow>
                 (case sub_path ''value'' a of
                    None \<Rightarrow> None
                  | Some v \<Rightarrow> sub_path ''query'' v)))
       (unwind_sub ''args'' ''value''
          (match_arg ''dns_questions''
             (unwind ''args'' (match_event ''net_packet_dns_request'' coll))))"

definition dns_pipeline :: "doc list \<Rightarrow> (bson \<times> nat) list" where
  "dns_pipeline coll = sort_count_desc (group_count (dns_keys coll))"

subsection \<open>The loop over \<^verbatim>\<open>ip_results\<close>\<close>

definition ip_key :: "(bson \<Rightarrow> string) \<Rightarrow> bson \<Rightarrow> bson" where
  "ip_key repr addr =
     (case addr of
        BDoc kvs \<Rightarrow>
          (let ip = (case map_of kvs ''ip'' of None \<Rightarrow> BStr ''unknown'' | Some v \<Rightarrow> v);
               port = (case map_of kvs ''port'' of None \<Rightarrow> BStr [] | Some v \<Rightarrow> v)
           in if truthy port then BStr (py_str repr ip @ '':'' @ py_str repr port) else ip)
      | _ \<Rightarrow> BStr (py_str repr addr))"

fun ip_loop :: "(bson \<Rightarrow> string) \<Rightarrow> nat pydict \<Rightarrow> (bson \<times> nat) list \<Rightarrow> error + nat pydict" where
  "ip_loop repr ip_usage [] = Inr ip_usage"
| "ip_loop repr ip_usage ((addr, c) # items) =
     (let key = ip_key repr addr in
      if hashable key then ip_loop repr (dict_set ip_usage key c) items else Inl TypeError)"

subsection \<open>The endpoint\<close>

record report =
  collection :: string
  total_events :: nat
  syscall_profile :: "nat pydict"
  file_access :: "nat pydict"
  executed_commands :: "nat pydict"
  ips :: "nat pydict"
  dns_records :: "nat pydict"
  risk_flags :: "string list"

text \<open>The risk flags, appended in the order of the four \<^verbatim>\<open>if\<close> statements.\<close>

definition flags :: "bool \<Rightarrow> bool \<Rightarrow> bool \<Rightarrow> bool \<Rightarrow> string list" where
  "flags sensitive shell network procfs =
     (if sensitive then [''sensitive_file_access''] else [])
     @ (if shell then [''shell_spawned''] else [])
     @ (if network then [''network_activity''] else [])
     @ (if procfs then [''procfs_access''] else [])"

definition get_stats :: "(bson \<Rightarrow> string) \<Rightarrow> database \<Rightarrow> string \<Rightarrow> error + report" where
  "get_stats repr db collection_name =
     (case db collection_name of
        None \<Rightarrow> Inl CollectionNotFound
      | Some coll \<Rightarrow>
     (case dict_of [] (syscall_pipeline coll) of Inl e \<Rightarrow> Inl e | Inr syscall_profile' \<Rightarrow>
     (case dict_of [] (file_pipeline coll) of Inl e \<Rightarrow> Inl e | Inr file_access' \<Rightarrow>
     (case py_filter (\<lambda>path. py_any (\<lambda>s. py_in s path) SENSITIVE_PATHS) (map fst file_access') of
        Inl e \<Rightarrow> Inl e | Inr sensitive_hits \<Rightarrow>
     (case dict_of [] (exec_pipeline coll) of Inl e \<Rightarrow> Inl e | Inr executed_commands' \<Rightarrow>
     (case py_any (\<lambda>cmd. py_any (\<lambda>shell. py_in shell cmd) SHELL_BINARIES)
             (map fst executed_commands') of
        Inl e \<Rightarrow> Inl e | Inr shell_spawned \<Rightarrow>
     (case ip_loop repr [] (ip_pipeline coll) of Inl e \<Rightarrow> Inl e | Inr ip_usage \<Rightarrow>
     (case dict_of [] (dns_pipeline coll) of Inl e \<Rightarrow> Inl e | Inr dns_usage \<Rightarrow>
     (case py_any (\<lambda>path. py_in ''/proc'' path) (map fst file_access') of
        Inl e \<Rightarrow> Inl e | Inr procfs \<Rightarrow>
        Inr \<lparr>collection = collection_name,
             total_events = length coll,
             syscall_profile = syscall_profile',
             file_access = file_access',
             executed_commands = executed_commands',
             ips = ip_usage,
             dns_records = dns_usage,
             risk_flags = flags (sensitive_hits \<noteq> []) shell_spawned (ip_usage \<noteq> []) procfs\<rparr>)))))))))"

text \<open>
  The predicate of the flag rules, in the words of their description: the key is a string
  that contains \<open>s\<close> as a substring.
\<close>

definition key_contains :: "bson \<Rightarrow> string \<Rightarrow> bool" where
  "key_contains k s = (case k of BStr p \<Rightarrow> sublist s p | _ \<Rightarrow> False)"

text \<open>
  Counting argument pairs, in the words of the data model: an event has an
  \<^verbatim>\<open>eventName\<close> and a list \<^verbatim>\<open>args\<close> of pairs with a \<^verbatim>\<open>name\<close> and a \<^verbatim>\<open>value\<close>.
  \<open>occurrences event name v coll\<close> is the number of pairs, over all events of the
  collection named \<open>event\<close>, whose name is \<open>name\<close> and whose value is \<open>v\<close>.
\<close>

definition named_pair :: "bson \<Rightarrow> bool" where
  "named_pair a =
     (case a of
        BDoc kvs \<Rightarrow> (case map_of kvs ''name'' of Some (BStr n) \<Rightarrow> True | _ \<Rightarrow> False)
      | _ \<Rightarrow> False)"

definition event_shaped :: "doc \<Rightarrow> bool" where
  "event_shaped d =
     ((case map_of d ''eventName'' of Some (BStr n) \<Rightarrow> True | _ \<Rightarrow> False)
      \<and> (case map_of d ''args'' of Some (BArr as) \<Rightarrow> list_all named_pair as | _ \<Rightarrow> False))"

definition is_pair :: "string \<Rightarrow> bson \<Rightarrow> bson \<Rightarrow> bool" where
  "is_pair name v a =
     (case a of
        BDoc kvs \<Rightarrow> map_of kvs ''name'' = Some (BStr name) \<and> group_id (map_of kvs ''value'') = v
      | _ \<Rightarrow> False)"

definition pair_count :: "string \<Rightarrow> bson \<Rightarrow> doc \<Rightarrow> nat" where
  "pair_count name v d =
     (case map_of d ''args'' of
        Some (BArr as) \<Rightarrow> length (filter (is_pair name v) as)
      | _ \<Rightarrow> 0)"

definition occurrences :: "string \<Rightarrow> string \<Rightarrow> bson \<Rightarrow> doc list \<Rightarrow> nat" where
  "occurrences event name v coll =
     sum_list (map (pair_count name v)
                 (filter (\<lambda>d. map_of d ''eventName'' = Some (BStr event)) coll))"

text \<open>
  Counting DNS questions, in the same words: the questions of a \<^verbatim>\<open>dns_questions\<close> pair
  are the elements of its value (a value that is not a list counts as one question, a
  missing or \<^verbatim>\<open>null\<close> value as none), and \<open>dns_occurrences q coll\<close> is the number of
  questions whose \<^verbatim>\<open>query\<close> is \<open>q\<close>, over all \<^verbatim>\<open>dns_questions\<close> pairs of all DNS-request
  events of the collection.
\<close>

definition question_list :: "bson option \<Rightarrow> bson list" where
  "question_list v =
     (case v of
        None \<Rightarrow> []
      | Some BNull \<Rightarrow> []
      | Some (BArr qs) \<Rightarrow> qs
      | Some x \<Rightarrow> [x])"

definition question_count :: "bson \<Rightarrow> bson \<Rightarrow> nat" where
  "question_count q a =
     (case a of
        BDoc kvs \<Rightarrow>
          (if map_of kvs ''name'' = Some (BStr ''dns_questions'')
           then length (filter (\<lambda>x. group_id (sub_path ''query'' x) = q)
                          (question_list (map_of kvs ''value'')))
           else 0)
      | _ \<Rightarrow> 0)"

definition dns_occurrences :: "bson \<Rightarrow> doc list \<Rightarrow> nat" where
  "dns_occurrences q coll =
     sum_list (map (\<lambda>d. case map_of d ''args'' of
                          Some (BArr as) \<Rightarrow> sum_list (map (question_count q) as)
                        | _ \<Rightarrow> 0)
                 (filter (\<lambda>d. map_of d ''eventName'' = Some (BStr ''net_packet_dns_request''))
                    coll))"

section \<open>Drill-down: \<^verbatim>\<open>get_specific_data\<close>\<close>

subsection \<open>The three queries\<close>

text \<open>
  An element of \<^verbatim>\<open>args\<close> that is a document with \<^verbatim>\<open>name\<close> \<open>name\<close> and whose
  \<^verbatim>\<open>value\<close> satisfies \<open>cond\<close>.
\<close>

definition arg_cond :: "string \<Rightarrow> (bson option \<Rightarrow> bool) \<Rightarrow> bson \<Rightarrow> bool" where
  "arg_cond name cond el =
     (case el of
        BDoc kvs \<Rightarrow> matches_eq (map_of kvs ''name'') (BStr name) \<and> cond (map_of kvs ''value'')
      | _ \<Rightarrow> False)"

text \<open>A DNS question: a document whose \<^verbatim>\<open>query\<close> is \<open>dns\<close>.\<close>

definition question_cond :: "string \<Rightarrow> bson \<Rightarrow> bool" where
  "question_cond dns q =
     (case q of BDoc kvs \<Rightarrow> matches_eq (map_of kvs ''query'') (BStr dns) | _ \<Rightarrow> False)"

definition dns_query :: "string \<Rightarrow> doc \<Rightarrow> bool" where
  "dns_query dns event =
     (matches_eq (map_of event ''eventName'') (BStr ''net_packet_dns_request'')
      \<and> elem_match (arg_cond ''dns_questions'' (elem_match (question_cond dns)))
            (map_of event ''args''))"

definition command_query :: "string \<Rightarrow> doc \<Rightarrow> bool" where
  "command_query command event =
     (matches_eq (map_of event ''eventName'') (BStr ''execve'')
      \<and> elem_match (arg_cond ''pathname'' (\<lambda>v. matches_eq v (BStr command)))
            (map_of event ''args''))"

definition file_query :: "string \<Rightarrow> doc \<Rightarrow> bool" where
  "file_query file event =
     (matches_eq (map_of event ''eventName'') (BStr ''openat'')
      \<and> elem_match (arg_cond ''pathname'' (\<lambda>v. matches_eq v (BStr file)))
            (map_of event ''args''))"

subsection \<open>The projections\<close>

text \<open>
  \<^verbatim>\<open>event.get("executable", {}).get("path")\<close>: \<^verbatim>\<open>AttributeError\<close> when the field is there
  and is not a dictionary.
\<close>

definition executable_path :: "doc \<Rightarrow> error + bson" where
  "executable_path event =
     (case map_of event ''executable'' of
        None \<Rightarrow> Inr BNull
      | Some (BDoc kvs) \<Rightarrow> Inr (dict_get kvs ''path'')
      | Some v \<Rightarrow> Inl AttributeError)"

definition dns_result :: "doc \<Rightarrow> error + bson" where
  "dns_result event =
     (case executable_path event of
        Inl e \<Rightarrow> Inl e
      | Inr path \<Rightarrow>
          Inr (BDoc [(''process'', dict_get event ''processName''),
                     (''process_id'', dict_get event ''processId''),
                     (''executable'', path),
                     (''timestamp'', dict_get event ''timestamp''),
                     (''args'', dict_get event ''args'')]))"

definition command_result :: "doc \<Rightarrow> error + bson" where
  "command_result event =
     (case executable_path event of
        Inl e \<Rightarrow> Inl e
      | Inr path \<Rightarrow>
          Inr (BDoc [(''process'', dict_get event ''processName''),
                     (''process_id'', dict_get event ''processId''),
                     (''parent_process_id'', dict_get event ''parentProcessId''),
                     (''executable'', path),
                     (''timestamp'', dict_get event ''timestamp''),
                     (''args'', dict_get event ''args'')]))"

definition file_result :: "doc \<Rightarrow> error + bson" where
  "file_result event =
     (case executable_path event of
        Inl e \<Rightarrow> Inl e
      | Inr path \<Rightarrow>
          Inr (BDoc [(''process'', dict_get event ''processName''),
                     (''process_id'', dict_get event ''processId''),
                     (''executable'', path),
                     (''timestamp'', dict_get event ''timestamp''),
                     (''args'', dict_get event ''args'')]))"

text \<open>\<^verbatim>\<open>for event in cursor: results.append(...)\<close>\<close>

fun results_loop :: "(doc \<Rightarrow> error + bson) \<Rightarrow> doc list \<Rightarrow> error + bson list" where
  "results_loop result [] = Inr []"
| "results_loop result (event # events) =
     (case result event of
        Inl e \<Rightarrow> Inl e
      | Inr r \<Rightarrow>
          (case results_loop result events of
             Inl e \<Rightarrow> Inl e
           | Inr rs \<Rightarrow> Inr (r # rs)))"

subsection \<open>The endpoint\<close>

text \<open>One branch: run the query, page it, project the events, wrap the results.\<close>

definition specific ::
  "string \<Rightarrow> string \<Rightarrow> (doc \<Rightarrow> bool) \<Rightarrow> (doc \<Rightarrow> error + bson) \<Rightarrow> doc list \<Rightarrow> int \<Rightarrow> int
     \<Rightarrow> error + bson" where
  "specific kind key query result coll limit offset =
     (case cursor offset limit (filter query coll) of
        Inl e \<Rightarrow> Inl e
      | Inr events \<Rightarrow>
          (case results_loop result events of
             Inl e \<Rightarrow> Inl e
           | Inr results \<Rightarrow>
               Inr (BDoc [(''specific'', BDoc [(kind, BDoc [(key, BArr results)])])])))"

text \<open>
  \<^verbatim>\<open>if dns:\<close> on an optional string: the parameter counts when it is given and is not
  the empty string.
\<close>

definition given :: "string option \<Rightarrow> string option" where
  "given p = (case p of None \<Rightarrow> None | Some s \<Rightarrow> if s = [] then None else Some s)"

text \<open>\<open>limit\<close> and \<open>offset\<close> are optional, with the defaults 50 and 0 of the signature.\<close>

definition get_specific_data ::
  "database \<Rightarrow> string \<Rightarrow> string option \<Rightarrow> string option \<Rightarrow> string option
     \<Rightarrow> int option \<Rightarrow> int option \<Rightarrow> error + bson" where
  "get_specific_data db collection_name dns command file limit offset =
     (case db collection_name of
        None \<Rightarrow> Inl CollectionNotFound
      | Some coll \<Rightarrow>
          (let lim = (case limit of None \<Rightarrow> 50 | Some n \<Rightarrow> n);
               off = (case offset of None \<Rightarrow> 0 | Some n \<Rightarrow> n)
           in case given dns of
                Some d \<Rightarrow> specific ''dns_calls'' d (dns_query d) dns_result coll lim off
              | None \<Rightarrow>
                  (case given command of
                     Some c \<Rightarrow>
                       specific ''command_calls'' c (command_query c) command_result coll lim off
                   | None \<Rightarrow>
                       (case given file of
                          Some f \<Rightarrow>
                            specific ''file_access'' f (file_query f) file_result coll lim off
                        | None \<Rightarrow> Inl MissingIndicator))))"

text \<open>
  The pagination of the drill-down, in the words of its description: \<open>rest_of\<close> skips
  \<open>offset\<close> matches, in stored order, and \<open>page_of\<close> keeps up to \<open>limit\<close> of what is
  left.
\<close>

definition rest_of :: "(doc \<Rightarrow> bool) \<Rightarrow> int \<Rightarrow> doc list \<Rightarrow> doc list" where
  "rest_of query offset coll = drop (nat offset) (filter query coll)"

definition page_of :: "(doc \<Rightarrow> bool) \<Rightarrow> int \<Rightarrow> int \<Rightarrow> doc list \<Rightarrow> doc list" where
  "page_of query limit offset coll = take (nat limit) (rest_of query offset coll)"
section \<open>Properties of the ingestion\<close>

subsection \<open>Decoding and splitting\<close>

lemma utf8_decode_1:
  "b0 < 0x80 \<Longrightarrow> utf8_decode (b0 # bs) = map_option (Cons (unat b0)) (utf8_decode bs)"
  by simp

lemma utf8_decode_2:
  "\<not> b0 < 0x80 \<Longrightarrow> 0xC2 \<le> b0 \<and> b0 \<le> 0xDF \<Longrightarrow> utf8_decode (b0 # bs) =
        (case bs of
           b1 # r \<Rightarrow>
             if is_cont b1
             then map_option (Cons ((unat b0 mod 32) * 64 + cont_bits b1)) (utf8_decode r)
             else None
         | _ \<Rightarrow> None)"
  by simp

lemma utf8_decode_3:
  "\<not> b0 < 0x80 \<Longrightarrow> \<not> (0xC2 \<le> b0 \<and> b0 \<le> 0xDF) \<Longrightarrow> 0xE0 \<le> b0 \<and> b0 \<le> 0xEF \<Longrightarrow>
   utf8_decode (b0 # bs) =
        (case bs of
           b1 # b2 # r \<Rightarrow>
             if is_cont b1 \<and> is_cont b2
                \<and> (if b0 = 0xE0 then 0xA0 \<le> b1 else True)
                \<and> (if b0 = 0xED then b1 \<le> 0x9F else True)
             then map_option
                    (Cons ((unat b0 mod 16) * 4096 + cont_bits b1 * 64 + cont_bits b2))
                    (utf8_decode r)
             else None
         | _ \<Rightarrow> None)"
  by (simp only: utf8_decode.simps simp_thms if_False if_True)

lemma utf8_decode_4:
  "\<not> b0 < 0x80 \<Longrightarrow> \<not> (0xC2 \<le> b0 \<and> b0 \<le> 0xDF) \<Longrightarrow> \<not> (0xE0 \<le> b0 \<and> b0 \<le> 0xEF) \<Longrightarrow>
   0xF0 \<le> b0 \<and> b0 \<le> 0xF4 \<Longrightarrow>
   utf8_decode (b0 # bs) =
        (case bs of
           b1 # b2 # b3 # r \<Rightarrow>
             if is_cont b1 \<and> is_cont b2 \<and> is_cont b3
                \<and> (if b0 = 0xF0 then 0x90 \<le> b1 else True)
                \<and> (if b0 = 0xF4 then b1 \<le> 0x8F else True)
             then map_option
                    (Cons ((unat b0 mod 8) * 262144 + cont_bits b1 * 4096
                           + cont_bits b2 * 64 + cont_bits b3))
                    (utf8_decode r)
             else None
         | _ \<Rightarrow> None)"
  by (simp only: utf8_decode.simps simp_thms if_False if_True)

lemma utf8_decode_5:
  "\<not> b0 < 0x80 \<Longrightarrow> \<not> (0xC2 \<le> b0 \<and> b0 \<le> 0xDF) \<Longrightarrow> \<not> (0xE0 \<le> b0 \<and> b0 \<le> 0xEF) \<Longrightarrow>
   \<not> (0xF0 \<le> b0 \<and> b0 \<le> 0xF4) \<Longrightarrow> utf8_decode (b0 # bs) = None"
  by (simp only: utf8_decode.simps simp_thms if_False if_True)


declare utf8_decode.simps(2) [simp del]

lemma utf8_decode_Nil_iff: "utf8_decode bs = Some [] \<Longrightarrow> bs = []"
proof (cases bs)
  case Nil
  then show ?thesis by simp
next
  case (Cons b0 r)
  assume a: "utf8_decode bs = Some []"
  consider (1) "b0 < 0x80"
    | (2) "\<not> b0 < 0x80" "0xC2 \<le> b0 \<and> b0 \<le> 0xDF"
    | (3) "\<not> b0 < 0x80" "\<not> (0xC2 \<le> b0 \<and> b0 \<le> 0xDF)" "0xE0 \<le> b0 \<and> b0 \<le> 0xEF"
    | (4) "\<not> b0 < 0x80" "\<not> (0xC2 \<le> b0 \<and> b0 \<le> 0xDF)" "\<not> (0xE0 \<le> b0 \<and> b0 \<le> 0xEF)"
          "0xF0 \<le> b0 \<and> b0 \<le> 0xF4"
    | (5) "\<not> b0 < 0x80" "\<not> (0xC2 \<le> b0 \<and> b0 \<le> 0xDF)" "\<not> (0xE0 \<le> b0 \<and> b0 \<le> 0xEF)"
          "\<not> (0xF0 \<le> b0 \<and> b0 \<le> 0xF4)"
    by blast
  then show ?thesis
  proof cases
    case 1
    with a Cons show ?thesis by (simp add: utf8_decode_1)
  next
    case 2
    with a Cons show ?thesis by (simp add: utf8_decode_2 split: list.splits if_splits)
  next
    case 3
    with a Cons show ?thesis by (simp add: utf8_decode_3 split: list.splits if_splits)
  next
    case 4
    with a Cons show ?thesis by (simp add: utf8_decode_4 split: list.splits if_splits)
  next
    case 5
    with a Cons show ?thesis by (simp add: utf8_decode_5)
  qed
qed


lemma utf8_decode_append:
  "utf8_decode p = Some u \<Longrightarrow>
   utf8_decode (p @ x) = (case utf8_decode x of None \<Rightarrow> None | Some v \<Rightarrow> Some (u @ v))"
proof (induction p arbitrary: u rule: utf8_decode.induct)
  case 1
  then show ?case by (simp split: option.splits)
next
  case (2 b0 bs)
  consider (1) "b0 < 0x80"
    | (2) "\<not> b0 < 0x80" "0xC2 \<le> b0 \<and> b0 \<le> 0xDF"
    | (3) "\<not> b0 < 0x80" "\<not> (0xC2 \<le> b0 \<and> b0 \<le> 0xDF)" "0xE0 \<le> b0 \<and> b0 \<le> 0xEF"
    | (4) "\<not> b0 < 0x80" "\<not> (0xC2 \<le> b0 \<and> b0 \<le> 0xDF)" "\<not> (0xE0 \<le> b0 \<and> b0 \<le> 0xEF)"
          "0xF0 \<le> b0 \<and> b0 \<le> 0xF4"
    | (5) "\<not> b0 < 0x80" "\<not> (0xC2 \<le> b0 \<and> b0 \<le> 0xDF)" "\<not> (0xE0 \<le> b0 \<and> b0 \<le> 0xEF)"
          "\<not> (0xF0 \<le> b0 \<and> b0 \<le> 0xF4)"
    by blast
  then show ?case
  proof cases
    case 1
    from "2.prems" 1 obtain z where z: "utf8_decode bs = Some z" "u = unat b0 # z"
      by (auto simp: utf8_decode_1)
    from "2.IH"(1)[OF 1 z(1)] 1 z show ?thesis
      by (simp add: utf8_decode_1 split: option.splits)
  next
    case 2
    from "2.prems" 2 obtain b1 r z where bs: "bs = b1 # r" and c: "is_cont b1"
      and z: "utf8_decode r = Some z" "u = ((unat b0 mod 32) * 64 + cont_bits b1) # z"
      by (auto simp: utf8_decode_2 split: list.splits if_splits)
    from "2.IH"(2)[OF 2(1) 2(2) bs c z(1)] 2 bs c z show ?thesis
      by (simp add: utf8_decode_2 split: option.splits)
  next
    case 3
    from "2.prems" 3 obtain b1 b2 r z where bs: "bs = b1 # b2 # r"
      and c: "is_cont b1 \<and> is_cont b2
                \<and> (if b0 = 0xE0 then 0xA0 \<le> b1 else True)
                \<and> (if b0 = 0xED then b1 \<le> 0x9F else True)"
      and z: "utf8_decode r = Some z"
         "u = ((unat b0 mod 16) * 4096 + cont_bits b1 * 64 + cont_bits b2) # z"
      by (auto simp: utf8_decode_3 split: list.splits if_splits)
    from bs obtain t where t: "bs = b1 # t" "t = b2 # r" by simp
    from "2.IH"(3)[OF 3(1) 3(2) 3(3) t c z(1)] 3 bs c z show ?thesis
      by (simp add: utf8_decode_3 split: option.splits)
  next
    case 4
    from "2.prems" 4 obtain b1 b2 b3 r z where bs: "bs = b1 # b2 # b3 # r"
      and c: "is_cont b1 \<and> is_cont b2 \<and> is_cont b3
                \<and> (if b0 = 0xF0 then 0x90 \<le> b1 else True)
                \<and> (if b0 = 0xF4 then b1 \<le> 0x8F else True)"
      and z: "utf8_decode r = Some z"
         "u = ((unat b0 mod 8) * 262144 + cont_bits b1 * 4096
                           + cont_bits b2 * 64 + cont_bits b3) # z"
      by (auto simp: utf8_decode_4 split: list.splits if_splits)
    from bs obtain t t' where t: "bs = b1 # t" "t = b2 # t'" "t' = b3 # r" by simp
    from "2.IH"(4)[OF 4(1) 4(2) 4(3) 4(4) t c z(1)] 4 bs c z show ?thesis
      by (simp add: utf8_decode_4 split: option.splits)
  next
    case 5
    with "2.prems" show ?thesis by (simp add: utf8_decode_5)
  qed
qed


lemma utf8_decode_truncated:
  assumes "c1 \<noteq> []" "c2 \<noteq> []" "utf8_decode (c1 @ c2) = Some [cp]"
  shows "utf8_decode c1 = None"
proof -
  from assms(1) obtain b0 t where c1: "c1 = b0 # t" by (cases c1) auto
  from assms(3) c1 have a: "utf8_decode (b0 # (t @ c2)) = Some [cp]" by simp
  consider (1) "b0 < 0x80"
    | (2) "\<not> b0 < 0x80" "0xC2 \<le> b0 \<and> b0 \<le> 0xDF"
    | (3) "\<not> b0 < 0x80" "\<not> (0xC2 \<le> b0 \<and> b0 \<le> 0xDF)" "0xE0 \<le> b0 \<and> b0 \<le> 0xEF"
    | (4) "\<not> b0 < 0x80" "\<not> (0xC2 \<le> b0 \<and> b0 \<le> 0xDF)" "\<not> (0xE0 \<le> b0 \<and> b0 \<le> 0xEF)"
          "0xF0 \<le> b0 \<and> b0 \<le> 0xF4"
    | (5) "\<not> b0 < 0x80" "\<not> (0xC2 \<le> b0 \<and> b0 \<le> 0xDF)" "\<not> (0xE0 \<le> b0 \<and> b0 \<le> 0xEF)"
          "\<not> (0xF0 \<le> b0 \<and> b0 \<le> 0xF4)"
    by blast
  then show ?thesis
  proof cases
    case 1
    with a have "utf8_decode (t @ c2) = Some []" by (auto simp: utf8_decode_1)
    then have "t @ c2 = []" by (rule utf8_decode_Nil_iff)
    with assms(2) show ?thesis by simp
  next
    case 2
    with a obtain b1 r where tc: "t @ c2 = b1 # r" and r: "utf8_decode r = Some []"
      by (auto simp: utf8_decode_2 split: list.splits if_splits)
    from r have "r = []" by (rule utf8_decode_Nil_iff)
    with tc assms(2) have "t = []" by (cases t) auto
    with c1 2 show ?thesis by (simp add: utf8_decode_2)
  next
    case 3
    with a obtain b1 b2 r where tc: "t @ c2 = b1 # b2 # r" and r: "utf8_decode r = Some []"
      by (auto simp: utf8_decode_3 split: list.splits if_splits)
    from r have "r = []" by (rule utf8_decode_Nil_iff)
    with tc assms(2) have "t = [] \<or> t = [b1]"
      by (cases t; cases "tl t") auto
    with c1 3 show ?thesis by (auto simp: utf8_decode_3)
  next
    case 4
    with a obtain b1 b2 b3 r
      where tc: "t @ c2 = b1 # b2 # b3 # r" and r: "utf8_decode r = Some []"
      by (auto simp: utf8_decode_4 split: list.splits if_splits)
    from r have "r = []" by (rule utf8_decode_Nil_iff)
    with tc assms(2) have "t = [] \<or> t = [b1] \<or> t = [b1, b2]"
      by (cases t; cases "tl t"; cases "tl (tl t)") auto
    with c1 4 show ?thesis by (auto simp: utf8_decode_4)
  next
    case 5
    with c1 show ?thesis by (simp add: utf8_decode_5)
  qed
qed

lemma utf8_decode_ascii:
  "\<forall>b\<in>set bs. b < 0x80 \<Longrightarrow> utf8_decode bs = Some (map unat bs)"
  by (induction bs) (auto simp: utf8_decode_1)

lemma splitlines_Nil: "splitlines [] = []"
  by (simp add: splitlines.simps)

lemma splitlines_no_break:
  assumes "s \<noteq> []" "\<forall>c\<in>set s. \<not> is_linebreak c"
  shows "splitlines s = [s]"
proof -
  have d: "dropWhile (\<lambda>c. \<not> is_linebreak c) s = []" using assms(2) by simp
  have t: "takeWhile (\<lambda>c. \<not> is_linebreak c) s = s" using assms(2) by simp
  show ?thesis
    by (subst splitlines.simps) (simp only: d t assms(1) after_break_def list.case splitlines_Nil if_False)
qed

lemma read_loop_Nil: "read_loop n loads enc we st [] = (None, st)"
  by (simp add: read_loop.simps)

lemma read_loop_chunk:
  assumes "length a = n" "n > 0"
  shows "read_loop n loads enc we st (a @ b) =
     (case utf8_decode a of
           None \<Rightarrow> (Some UnicodeDecodeError, st)
         | Some text \<Rightarrow>
             (case process_lines loads enc we st (splitlines text) of
                (Some e, st') \<Rightarrow> (Some e, st')
              | (None, st') \<Rightarrow> read_loop n loads enc we st' b))"
proof -
  have t: "take n (a @ b) = a" and d: "drop n (a @ b) = b" using assms by simp_all
  have ne: "a \<noteq> []" using assms by auto
  show ?thesis
    by (subst read_loop.simps) (simp only: t d ne if_False)
qed

lemma read_loop_last:
  assumes "b \<noteq> []" "length b \<le> n"
  shows "read_loop n loads enc we st b =
     (case utf8_decode b of
           None \<Rightarrow> (Some UnicodeDecodeError, st)
         | Some text \<Rightarrow> process_lines loads enc we st (splitlines text))"
proof -
  have t: "take n b = b" and d: "drop n b = []" using assms by simp_all
  show ?thesis
    by (subst read_loop.simps)
       (simp only: t d assms(1) if_False read_loop_Nil, simp split: option.splits prod.splits)
qed

lemma splitlines_line:
  assumes "\<forall>c\<in>set s. \<not> is_linebreak c"
  shows "splitlines (s @ 0x0A # rest) = s # splitlines rest"
proof -
  have b: "is_linebreak 0x0A" by (simp add: is_linebreak_def)
  have t: "takeWhile (\<lambda>c. \<not> is_linebreak c) (s @ 0x0A # rest) = s"
    using assms b by (simp add: takeWhile_append2)
  have d: "dropWhile (\<lambda>c. \<not> is_linebreak c) (s @ 0x0A # rest) = 0x0A # rest"
    using assms b by (simp add: dropWhile_append2)
  have a: "after_break (0x0A # rest) = rest" by (simp add: after_break_def)
  show ?thesis
    by (subst splitlines.simps) (simp add: t d a)
qed

lemma endswith_ex: "endswith (lower ''trace.jsonl'') allowed_extensions"
  by (simp add: endswith_def lower_def allowed_extensions_def suffix_to_prefix)

lemma CHUNK_SIZE_pos: "0 < CHUNK_SIZE"
  by (simp add: CHUNK_SIZE_def)

subsection \<open>A character split by a chunk boundary\<close>

text \<open>
  Claim C10. The upload is not total on byte streams. Whenever the first \<open>CHUNK_SIZE\<close>
  bytes of the stream are valid UTF-8 text \<open>p\<close> followed by a proper, non-empty part
  \<open>c1\<close> of the encoding \<open>c1 @ c2\<close> of one character (so that the character straddles the
  chunk boundary), decoding the first chunk raises \<open>UnicodeDecodeError\<close>. No handler
  catches it: it is neither dropped like a line that does not parse nor turned into
  \<open>IngestionFailed\<close>, whatever the parser, the store and the rest of the stream are.
  The collection has been created and stays as it was.
\<close>

theorem upload_tracee_split_character:
  assumes "endswith (lower filename) allowed_extensions"
    and "utf8_decode p = Some u"
    and "c1 \<noteq> []" and "c2 \<noteq> []" and "utf8_decode (c1 @ c2) = Some [cp]"
    and "length p + length c1 = CHUNK_SIZE"
  shows "upload_tracee loads encode_error write_error db collection_name filename (p @ c1 @ c2 @ rest)
         = (Inl UnicodeDecodeError,
            db(collection_name \<mapsto> (case db collection_name of None \<Rightarrow> [] | Some c \<Rightarrow> c)))"
proof -
  have "utf8_decode c1 = None"
    using assms(3,4,5) by (rule utf8_decode_truncated)
  then have d: "utf8_decode (p @ c1) = None"
    using utf8_decode_append[OF assms(2), of c1] by simp
  have len: "length (p @ c1) = CHUNK_SIZE" using assms(6) by simp
  have "read_loop CHUNK_SIZE loads encode_error write_error st (p @ c1 @ c2 @ rest) = (Some UnicodeDecodeError, st)" for st
    using read_loop_chunk[OF len CHUNK_SIZE_pos, of loads encode_error write_error st "c2 @ rest"] d
    by simp
  then show ?thesis
    using assms(1) by (simp add: upload_tracee_def)
qed

theorem upload_tracee_split_character_witness:
  "upload_tracee (\<lambda>s. Inl JSONDecodeError) (\<lambda>d. None) (\<lambda>c d. False) Map.empty ''tracee_1'' ''trace.jsonl''
     (replicate 1048575 0x20 @ [0xC3] @ [0xA9] @ [])
   = (Inl UnicodeDecodeError, [''tracee_1'' \<mapsto> []])"
proof -
  have p: "utf8_decode (replicate 1048575 (0x20 :: byte)) = Some (map unat (replicate 1048575 (0x20 :: byte)))"
    by (rule utf8_decode_ascii) simp
  have c: "utf8_decode ([0xC3] @ [0xA9]) = Some [233]"
    by (simp add: utf8_decode_2 is_cont_def cont_bits_def)
  have l: "length (replicate 1048575 (0x20 :: byte)) + length [0xC3 :: byte] = CHUNK_SIZE"
    by (simp add: CHUNK_SIZE_def)
  show ?thesis
    using upload_tracee_split_character[OF endswith_ex p _ _ c l, of "(\<lambda>s. Inl JSONDecodeError)" "(\<lambda>d. None)" "(\<lambda>c d. False)" Map.empty "''tracee_1''" "[]"]
    by simp
qed

lemma process_lines_dropped:
  "loads line = Inl JSONDecodeError \<Longrightarrow>
   process_lines loads encode_error write_error st (line # lines) = process_lines loads encode_error write_error st lines"
  by simp

lemma process_lines_kept:
  "loads line = Inr event \<Longrightarrow> Suc (length (batch st)) < batch_size \<Longrightarrow>
   process_lines loads encode_error write_error st (line # lines)
     = process_lines loads encode_error write_error (st\<lparr>batch := batch st @ [event]\<rparr>) lines"
  by simp

lemma ascii_line_decode:
  assumes "\<forall>x\<in>set l. x < 0x80"
  shows "utf8_decode (l @ [0x0A]) = Some (map unat l @ [0x0A])"
  using utf8_decode_ascii[of "l @ [0x0A]"] assms by simp

subsection \<open>A line split by a chunk boundary\<close>

text \<open>
  Claim C1. The claim asks that a well-formed line spanning two chunks be carried over,
  parsed and counted once. The code splits every chunk on its own: for an ASCII line
  \<open>a @ b\<close> without line breaks, whose first part \<open>a\<close> fills the first chunk, that parses as
  a whole (\<open>loads (a @ b) = Inr event\<close>) while neither part parses, the upload succeeds
  with \<^verbatim>\<open>documents_inserted = 0\<close> and an empty collection: the event is lost.
\<close>

theorem upload_tracee_line_across_chunks:
  assumes ext: "endswith (lower filename) allowed_extensions"
    and fresh: "db collection_name = None"
    and len: "length a = CHUNK_SIZE" "length b < CHUNK_SIZE"
    and ascii: "\<forall>x\<in>set (a @ b). x < 0x80"
    and nobreak: "\<forall>x\<in>set (a @ b). \<not> is_linebreak (unat x)"
    and whole: "loads (map unat (a @ b)) = Inr event"
    and parts: "loads (map unat a) = Inl JSONDecodeError" "loads (map unat b) = Inl JSONDecodeError"
  shows "upload_tracee loads encode_error write_error db collection_name filename (a @ b @ [0x0A])
         = (Inr (collection_name, 0), db(collection_name \<mapsto> []))"
proof -
  let ?st0 = "\<lparr>batch = [], inserted_count = 0, stored = []\<rparr>"
  have a_ne: "a \<noteq> []" using len(1) CHUNK_SIZE_pos by auto
  have da: "utf8_decode a = Some (map unat a)"
    using ascii by (intro utf8_decode_ascii) simp
  have sa: "splitlines (map unat a) = [map unat a]"
    using a_ne nobreak by (intro splitlines_no_break) auto
  have db': "utf8_decode (b @ [0x0A]) = Some (map unat b @ [0x0A])"
    using ascii by (intro ascii_line_decode) simp
  have sb: "splitlines (map unat b @ [0x0A]) = [map unat b]"
    using nobreak splitlines_line[of "map unat b" "[]"] by (auto simp: splitlines_Nil)
  have pa: "process_lines loads encode_error write_error ?st0 [map unat a] = (None, ?st0)"
    using parts(1) by simp
  have pb: "process_lines loads encode_error write_error ?st0 [map unat b] = (None, ?st0)"
    using parts(2) by simp
  have "b @ [0x0A] \<noteq> []" and "length (b @ [0x0A]) \<le> CHUNK_SIZE"
    using len(2) by simp_all
  from read_loop_last[OF this, of loads encode_error write_error ?st0]
  have last: "read_loop CHUNK_SIZE loads encode_error write_error ?st0 (b @ [0x0A]) = (None, ?st0)"
    by (simp only: db' sb pb option.case)
  from read_loop_chunk[OF len(1) CHUNK_SIZE_pos, of loads encode_error write_error ?st0 "b @ [0x0A]"]
  have loop: "read_loop CHUNK_SIZE loads encode_error write_error ?st0 (a @ b @ [0x0A]) = (None, ?st0)"
    by (simp only: da sa pa last option.case prod.case)
  show ?thesis
    using ext fresh by (simp add: upload_tracee_def loop flush_def)
qed


lemma endswith_log: "endswith (lower ''Events.LOG'') allowed_extensions"
  by code_simp

lemma dropWhile_spaces:
  "dropWhile (\<lambda>c. c = (0x20 :: nat)) (replicate n 0x20 @ ys) = dropWhile (\<lambda>c. c = 0x20) ys"
  by (simp add: dropWhile_append)

theorem upload_tracee_line_across_chunks_witness:
  "upload_tracee (\<lambda>s. if dropWhile (\<lambda>c. c = 0x20) s = [0x7B, 0x7D] then Inr (BDoc []) else Inl JSONDecodeError)
     (\<lambda>d. None) (\<lambda>c d. False) Map.empty ''tracee_1'' ''trace.jsonl''
     ((replicate 1048575 0x20 @ [0x7B]) @ [0x7D] @ [0x0A])
   = (Inr (''tracee_1'', 0), [''tracee_1'' \<mapsto> []])"
proof -
  let ?loads = "\<lambda>s :: unicode. if dropWhile (\<lambda>c. c = 0x20) s = [0x7B, 0x7D] then Inr (BDoc []) else Inl JSONDecodeError"
  let ?a = "replicate 1048575 (0x20 :: byte) @ [0x7B]"
  let ?b = "[0x7D :: byte]"
  have 1: "length ?a = CHUNK_SIZE" by (simp add: CHUNK_SIZE_def)
  have 2: "length ?b < CHUNK_SIZE" by (simp add: CHUNK_SIZE_def)
  have 3: "\<forall>x\<in>set (?a @ ?b). x < 0x80" by auto
  have 4: "\<forall>x\<in>set (?a @ ?b). \<not> is_linebreak (unat x)" by (auto simp: is_linebreak_def)
  have 5: "?loads (map unat (?a @ ?b)) = Inr (BDoc [])" by (simp add: dropWhile_spaces)
  have 6: "?loads (map unat ?a) = Inl JSONDecodeError" by (simp add: dropWhile_spaces)
  have 7: "?loads (map unat ?b) = Inl JSONDecodeError" by simp
  show ?thesis
    using upload_tracee_line_across_chunks[of "''trace.jsonl''" Map.empty "''tracee_1''" ?a ?b ?loads "BDoc []" "\<lambda>d. None" "\<lambda>c d. False",
        OF endswith_ex _ 1 2 3 4 5 6 7]
    by simp
qed

text \<open>
  Claim C2. The claim asks that a stream of \<open>N\<close> well-formed and \<open>M\<close> malformed lines
  give \<^verbatim>\<open>documents_inserted = N\<close>. Here the stream has two well-formed lines and no
  malformed one, \<open>l\<close> and \<open>a @ b\<close>; the first chunk ends after \<open>a\<close>. The first event
  encodes and the store accepts it, and the upload answers \<^verbatim>\<open>documents_inserted = 1\<close>:
  only \<open>l\<close> is stored.
\<close>

theorem upload_tracee_undercounts:
  assumes ext: "endswith (lower filename) allowed_extensions"
    and fresh: "db collection_name = None"
    and len: "length (l @ [0x0A] @ a) = CHUNK_SIZE" "length b < CHUNK_SIZE"
    and ascii: "\<forall>x\<in>set (l @ a @ b). x < 0x80"
    and nobreak: "\<forall>x\<in>set (l @ a @ b). \<not> is_linebreak (unat x)"
    and first: "loads (map unat l) = Inr (BDoc e1)"
    and second: "loads (map unat (a @ b)) = Inr (BDoc e2)"
    and parts: "loads (map unat a) = Inl JSONDecodeError" "loads (map unat b) = Inl JSONDecodeError"
    and encodes: "encode_error e1 = None"
    and accepts: "\<not> write_error [] e1"
  shows "upload_tracee loads encode_error write_error db collection_name filename
           ((l @ [0x0A] @ a) @ b @ [0x0A])
         = (Inr (collection_name, 1), db(collection_name \<mapsto> [e1]))"
proof -
  let ?st0 = "\<lparr>batch = [], inserted_count = 0, stored = []\<rparr>"
  let ?st1 = "\<lparr>batch = [BDoc e1], inserted_count = 0, stored = []\<rparr>"
  have a_ne: "a \<noteq> []" using second parts(2) by auto
  have "\<forall>x\<in>set (l @ [0x0A] @ a). x < 0x80" using ascii by auto
  from utf8_decode_ascii[OF this]
  have dc: "utf8_decode (l @ [0x0A] @ a) = Some (map unat l @ 0x0A # map unat a)"
    by simp
  have sa: "splitlines (map unat a) = [map unat a]"
    using a_ne nobreak by (intro splitlines_no_break) auto
  have sc: "splitlines (map unat l @ 0x0A # map unat a) = [map unat l, map unat a]"
    using nobreak splitlines_line[of "map unat l" "map unat a"] sa by auto
  have db': "utf8_decode (b @ [0x0A]) = Some (map unat b @ [0x0A])"
    using ascii by (intro ascii_line_decode) simp
  have sb: "splitlines (map unat b @ [0x0A]) = [map unat b]"
    using nobreak splitlines_line[of "map unat b" "[]"] by (auto simp: splitlines_Nil)
  have pa: "process_lines loads encode_error write_error ?st0 [map unat l, map unat a] = (None, ?st1)"
    using first parts(1) by (simp add: batch_size_def)
  have pb: "process_lines loads encode_error write_error ?st1 [map unat b] = (None, ?st1)"
    using parts(2) by simp
  have "b @ [0x0A] \<noteq> []" and "length (b @ [0x0A]) \<le> CHUNK_SIZE"
    using len(2) by simp_all
  from read_loop_last[OF this, of loads encode_error write_error ?st1]
  have last: "read_loop CHUNK_SIZE loads encode_error write_error ?st1 (b @ [0x0A]) = (None, ?st1)"
    by (simp only: db' sb pb option.case)
  from read_loop_chunk[OF len(1) CHUNK_SIZE_pos, of loads encode_error write_error ?st0 "b @ [0x0A]"]
  have loop: "read_loop CHUNK_SIZE loads encode_error write_error ?st0 ((l @ [0x0A] @ a) @ b @ [0x0A])
                = (None, ?st1)"
    by (simp only: dc sc pa last option.case prod.case)
  have fl: "flush encode_error write_error ?st1
              = (None, \<lparr>batch = [BDoc e1], inserted_count = 1, stored = [e1]\<rparr>)"
    using encodes accepts by (simp add: flush_def insert_many_def)
  show ?thesis
    using ext fresh loop fl by (simp add: upload_tracee_def)
qed


theorem upload_tracee_undercounts_witness:
  "upload_tracee (\<lambda>s. if dropWhile (\<lambda>c. c = 0x20) s = [0x7B, 0x7D] then Inr (BDoc []) else Inl JSONDecodeError)
     (\<lambda>d. None) (\<lambda>c d. False) Map.empty ''tracee_1'' ''trace.jsonl''
     (([0x7B, 0x7D] @ [0x0A] @ (replicate 1048572 0x20 @ [0x7B])) @ [0x7D] @ [0x0A])
   = (Inr (''tracee_1'', 1), [''tracee_1'' \<mapsto> [[]]])"
proof -
  let ?loads = "\<lambda>s :: unicode. if dropWhile (\<lambda>c. c = 0x20) s = [0x7B, 0x7D] then Inr (BDoc []) else Inl JSONDecodeError"
  let ?l = "[0x7B, 0x7D :: byte]"
  let ?a = "replicate 1048572 (0x20 :: byte) @ [0x7B]"
  let ?b = "[0x7D :: byte]"
  have 1: "length (?l @ [0x0A] @ ?a) = CHUNK_SIZE" by (simp add: CHUNK_SIZE_def)
  have 2: "length ?b < CHUNK_SIZE" by (simp add: CHUNK_SIZE_def)
  have 3: "\<forall>x\<in>set (?l @ ?a @ ?b). x < 0x80" by auto
  have 4: "\<forall>x\<in>set (?l @ ?a @ ?b). \<not> is_linebreak (unat x)" by (auto simp: is_linebreak_def)
  have 5: "?loads (map unat ?l) = Inr (BDoc [])" by simp
  have 6: "?loads (map unat (?a @ ?b)) = Inr (BDoc [])" by (simp add: dropWhile_spaces)
  have 7: "?loads (map unat ?a) = Inl JSONDecodeError" by (simp add: dropWhile_spaces)
  have 8: "?loads (map unat ?b) = Inl JSONDecodeError" by simp
  show ?thesis
    using upload_tracee_undercounts[of "''trace.jsonl''" Map.empty "''tracee_1''" ?l ?a ?b ?loads "[]" "[]" "\<lambda>d. None" "\<lambda>c d. False",
        OF endswith_ex _ 1 2 3 4 5 6 7 8]
    by simp
qed

subsection \<open>Streams of a single chunk\<close>

text \<open>
  Where no chunk boundary interferes, the loop counts as described: for a stream of at
  most \<open>CHUNK_SIZE\<close> bytes of valid UTF-8, a parser that yields only dictionaries and
  raises nothing but \<^verbatim>\<open>JSONDecodeError\<close>, documents that all encode and a store that
  rejects nothing, \<^verbatim>\<open>documents_inserted\<close> is the number of lines that parse; the lines
  that do not parse are dropped.
\<close>

lemma insert_ordered_accepts:
  "\<forall>c d. \<not> write_error c d \<Longrightarrow> insert_ordered write_error coll ds = (None, coll @ ds)"
  by (induction ds arbitrary: coll) simp_all

lemma encode_all_accepts:
  "\<forall>d. encode_error d = None \<Longrightarrow> encode_all encode_error ds = None"
  by (induction ds) simp_all

lemma insert_many_accepts:
  "\<forall>d. encode_error d = None \<Longrightarrow> \<forall>c d. \<not> write_error c d \<Longrightarrow>
   list_all is_document events \<Longrightarrow>
   insert_many encode_error write_error coll events = (None, coll @ map doc_fields events)"
  by (simp add: insert_many_def insert_ordered_accepts encode_all_accepts)

lemma process_lines_counts:
  assumes enc: "\<forall>d. encode_error d = None"
    and nowe: "\<forall>c d. \<not> write_error c d"
    and docs: "\<forall>l v. loads l = Inr v \<longrightarrow> is_document v"
    and raises: "\<forall>l e. loads l = Inl e \<longrightarrow> e = JSONDecodeError"
  shows "list_all is_document (batch st) \<Longrightarrow>
         \<exists>st'. process_lines loads encode_error write_error st lines = (None, st')
            \<and> list_all is_document (batch st')
            \<and> inserted_count st' + length (batch st')
                = inserted_count st + length (batch st)
                  + length (filter (\<lambda>l. \<not> isl (loads l)) lines)"
proof (induction lines arbitrary: st)
  case Nil
  then show ?case by simp
next
  case (Cons line lines)
  show ?case
  proof (cases "loads line")
    case (Inl e)
    with raises have "e = JSONDecodeError" by blast
    with Inl Cons.IH[OF Cons.prems] show ?thesis by simp
  next
    case (Inr event)
    with docs have ev: "is_document event" by blast
    let ?st1 = "st\<lparr>batch := batch st @ [event]\<rparr>"
    have b1: "list_all is_document (batch ?st1)" using Cons.prems ev by simp
    show ?thesis
    proof (cases "length (batch ?st1) \<ge> batch_size")
      case True
      let ?st2 = "?st1\<lparr>stored := stored ?st1 @ map doc_fields (batch ?st1),
                         inserted_count := inserted_count ?st1 + length (batch ?st1),
                         batch := []\<rparr>"
      have step: "process_lines loads encode_error write_error st (line # lines)
                    = process_lines loads encode_error write_error ?st2 lines"
        using Inr True insert_many_accepts[OF enc nowe b1, of "stored ?st1"] by simp
      have "list_all is_document (batch ?st2)" by simp
      from Cons.IH[OF this] obtain st' where
        "process_lines loads encode_error write_error ?st2 lines = (None, st')"
        "list_all is_document (batch st')"
        "inserted_count st' + length (batch st')
           = inserted_count ?st2 + length (batch ?st2)
             + length (filter (\<lambda>l. \<not> isl (loads l)) lines)"
        by blast
      with step Inr show ?thesis by simp
    next
      case False
      then have step: "process_lines loads encode_error write_error st (line # lines)
                    = process_lines loads encode_error write_error ?st1 lines"
        using Inr by simp
      from Cons.IH[OF b1] obtain st' where
        "process_lines loads encode_error write_error ?st1 lines = (None, st')"
        "list_all is_document (batch st')"
        "inserted_count st' + length (batch st')
           = inserted_count ?st1 + length (batch ?st1)
             + length (filter (\<lambda>l. \<not> isl (loads l)) lines)"
        by blast
      with step Inr show ?thesis by simp
    qed
  qed
qed

lemma flush_counts:
  assumes "\<forall>d. encode_error d = None" and "\<forall>c d. \<not> write_error c d"
    and "list_all is_document (batch st)"
  shows "\<exists>st'. flush encode_error write_error st = (None, st')
            \<and> inserted_count st' = inserted_count st + length (batch st)"
  using insert_many_accepts[OF assms, of "stored st"] by (simp add: flush_def)

lemma upload_tracee_single_chunk:
  assumes ext: "endswith (lower filename) allowed_extensions"
    and len: "stream \<noteq> []" "length stream \<le> CHUNK_SIZE"
    and dec: "utf8_decode stream = Some text"
    and docs: "\<forall>l v. loads l = Inr v \<longrightarrow> is_document v"
    and raises: "\<forall>l e. loads l = Inl e \<longrightarrow> e = JSONDecodeError"
    and enc: "\<forall>d. encode_error d = None"
    and nowe: "\<forall>c d. \<not> write_error c d"
  shows "fst (upload_tracee loads encode_error write_error db collection_name filename stream)
           = Inr (collection_name,
                  length (filter (\<lambda>l. \<not> isl (loads l)) (splitlines text)))"
proof -
  let ?st0 = "\<lparr>batch = [], inserted_count = 0,
               stored = (case db collection_name of None \<Rightarrow> [] | Some c \<Rightarrow> c)\<rparr>"
  have "list_all is_document (batch ?st0)" by simp
  from process_lines_counts[OF enc nowe docs raises this, of "splitlines text"] obtain st1 where
    p: "process_lines loads encode_error write_error ?st0 (splitlines text) = (None, st1)"
    and b: "list_all is_document (batch st1)"
    and c: "inserted_count st1 + length (batch st1)
              = length (filter (\<lambda>l. \<not> isl (loads l)) (splitlines text))"
    by auto
  from read_loop_last[OF len, of loads encode_error write_error ?st0]
  have loop: "read_loop CHUNK_SIZE loads encode_error write_error ?st0 stream = (None, st1)"
    by (simp only: dec p option.case)
  from flush_counts[OF enc nowe b] obtain st2 where
    f: "flush encode_error write_error st1 = (None, st2)"
    and "inserted_count st2 = inserted_count st1 + length (batch st1)"
    by blast
  with c have "inserted_count st2 = length (filter (\<lambda>l. \<not> isl (loads l)) (splitlines text))"
    by simp
  with ext loop f show ?thesis
    by (simp add: upload_tracee_def)
qed

text \<open>
  A line that is valid JSON and is not an object is appended to the batch like an event;
  the bulk write then raises \<^verbatim>\<open>TypeError\<close>, which no handler catches.
\<close>

lemma upload_tracee_non_object_line:
  assumes ext: "endswith (lower filename) allowed_extensions"
    and loads: "loads [0x34, 0x32] = Inr (BInt 42)"
  shows "fst (upload_tracee loads encode_error write_error db collection_name filename
                [0x34, 0x32, 0x0A])
           = Inl TypeError"
proof -
  let ?st0 = "\<lparr>batch = [], inserted_count = 0,
               stored = (case db collection_name of None \<Rightarrow> [] | Some c \<Rightarrow> c)\<rparr>"
  have d: "utf8_decode [0x34, 0x32, 0x0A] = Some [0x34, 0x32, 0x0A]"
    using utf8_decode_ascii[of "[0x34, 0x32, 0x0A]"] by simp
  have s: "splitlines [0x34, 0x32, 0x0A] = [[0x34, 0x32]]"
    using splitlines_line[of "[0x34, 0x32]" "[]"] by (simp add: is_linebreak_def splitlines_Nil)
  have "[0x34, 0x32, 0x0A :: byte] \<noteq> []" "length [0x34, 0x32, 0x0A :: byte] \<le> CHUNK_SIZE"
    by (simp_all add: CHUNK_SIZE_def)
  from read_loop_last[OF this, of loads encode_error write_error ?st0]
  have "read_loop CHUNK_SIZE loads encode_error write_error ?st0 [0x34, 0x32, 0x0A]
          = (None, ?st0\<lparr>batch := [BInt 42]\<rparr>)"
    using loads by (simp add: d s batch_size_def)
  with ext show ?thesis
    by (simp add: upload_tracee_def flush_def insert_many_def)
qed

section \<open>Properties of the aggregation\<close>

text \<open>
  Claim C9. On a collection that exists and holds no event, \<^verbatim>\<open>get_stats\<close> returns
  \<^verbatim>\<open>total_events = 0\<close>, the five maps empty and no risk flag.
\<close>

theorem get_stats_empty_collection:
  assumes "db collection_name = Some []"
  shows "get_stats repr db collection_name =
     Inr \<lparr>collection = collection_name, total_events = 0, syscall_profile = [],
          file_access = [], executed_commands = [], ips = [], dns_records = [],
          risk_flags = []\<rparr>"
  using assms
  by (simp add: get_stats_def syscall_pipeline_def file_pipeline_def exec_pipeline_def
      ip_pipeline_def dns_pipeline_def arg_pipeline_def arg_keys_def dns_keys_def
      match_event_def unwind_def unwind_sub_def match_arg_def group_count_def
      sort_count_desc_def flags_def)

theorem get_stats_empty_collection_witness:
  "get_stats (\<lambda>v. []) [''tracee_1'' \<mapsto> []] ''tracee_1'' =
     Inr \<lparr>collection = ''tracee_1'', total_events = 0, syscall_profile = [],
          file_access = [], executed_commands = [], ips = [], dns_records = [],
          risk_flags = []\<rparr>"
  using get_stats_empty_collection[of "[''tracee_1'' \<mapsto> []]" "''tracee_1''" "\<lambda>v. []"]
  by simp

lemmas pipeline_defs =
  syscall_pipeline_def file_pipeline_def exec_pipeline_def ip_pipeline_def dns_pipeline_def
  arg_pipeline_def arg_keys_def dns_keys_def match_event_def unwind_def unwind_doc_def
  unwind_sub_def unwind_sub_doc_def match_arg_def matches_eq_def matches_sub_def set_field_def
  group_id_def group_count_def sort_count_desc_def

lemma contains_iff_sublist: "contains p s \<longleftrightarrow> sublist s p"
  by (induction p) (auto simp: sublist_Cons_right)

lemma py_any_Inr: "py_any f xs = Inr b \<Longrightarrow> b = (\<exists>x\<in>set xs. f x = Inr True)"
  by (induction xs) (auto split: sum.splits if_splits)

lemma py_filter_Inr: "py_filter f xs = Inr ys \<Longrightarrow> ys = filter (\<lambda>x. f x = Inr True) xs"
  by (induction xs arbitrary: ys) (auto split: sum.splits if_splits)

lemma py_filter_nonempty:
  "py_filter f xs = Inr ys \<Longrightarrow> (ys \<noteq> []) = (\<exists>x\<in>set xs. f x = Inr True)"
  by (drule py_filter_Inr) (simp add: filter_empty_conv)

lemma dict_set_keys:
  "x \<in> set (dict_set d k v) \<Longrightarrow> fst x = k \<or> (\<exists>y\<in>set d. fst y = fst x)"
  by (induction d) (auto split: if_splits)

lemma dict_of_hashable:
  "dict_of d items = Inr d' \<Longrightarrow> \<forall>x\<in>set d. hashable (fst x) \<Longrightarrow>
   \<forall>x\<in>set d'. hashable (fst x)"
proof (induction d items arbitrary: d' rule: dict_of.induct)
  case (1 d)
  then show ?case by simp
next
  case (2 d k c items)
  from "2.prems"(1) have h: "hashable k" and rest: "dict_of (dict_set d k c) items = Inr d'"
    by (auto split: if_splits)
  have "\<forall>x\<in>set (dict_set d k c). hashable (fst x)"
    using h "2.prems"(2) dict_set_keys[of _ d k c] by metis
  from "2.IH"[OF h rest this] show ?case .
qed

lemma py_in_hashable:
  "hashable k \<Longrightarrow> (py_in s k = Inr True) = key_contains k s"
  by (cases k) (simp_all add: key_contains_def contains_iff_sublist)

lemma py_any_in_hashable:
  "hashable k \<Longrightarrow> py_any (\<lambda>s. py_in s k) ss = Inr b \<Longrightarrow> b = (\<exists>s\<in>set ss. key_contains k s)"
  by (drule py_any_Inr) (simp add: py_in_hashable)


lemma py_filter_total:
  "py_filter f xs = Inr ys \<Longrightarrow> x \<in> set xs \<Longrightarrow> \<exists>b. f x = Inr b"
  by (induction xs arbitrary: ys) (auto split: sum.splits)

lemma any_key_contains:
  assumes "py_filter (\<lambda>path. py_any (\<lambda>s. py_in s path) ss) ks = Inr hits"
    and "\<forall>k\<in>set ks. hashable k"
  shows "(hits \<noteq> []) = (\<exists>k\<in>set ks. \<exists>s\<in>set ss. key_contains k s)"
proof -
  have "(py_any (\<lambda>s. py_in s k) ss = Inr True) = (\<exists>s\<in>set ss. key_contains k s)"
    if k: "k \<in> set ks" for k
  proof -
    from py_filter_total[OF assms(1) k] obtain b where b: "py_any (\<lambda>s. py_in s k) ss = Inr b"
      by blast
    from assms(2) k have "hashable k" by blast
    from py_any_in_hashable[OF this b] b show ?thesis by simp
  qed
  then show ?thesis
    unfolding py_filter_nonempty[OF assms(1)] by blast
qed

lemma shell_key_contains:
  assumes "py_any (\<lambda>cmd. py_any (\<lambda>s. py_in s cmd) ss) ks = Inr b"
    and "\<forall>k\<in>set ks. hashable k"
  shows "b = (\<exists>k\<in>set ks. \<exists>s\<in>set ss. key_contains k s)"
  using assms
proof (induction ks)
  case Nil
  then show ?case by simp
next
  case (Cons k ks)
  from Cons.prems(1) obtain b1 where b1: "py_any (\<lambda>s. py_in s k) ss = Inr b1"
    by (auto split: sum.splits)
  from Cons.prems(2) have "hashable k" by simp
  from py_any_in_hashable[OF this b1] have e: "b1 = (\<exists>s\<in>set ss. key_contains k s)" .
  show ?case
  proof (cases b1)
    case True
    with Cons.prems(1) b1 e show ?thesis by auto
  next
    case False
    with Cons.prems(1) b1
    have "py_any (\<lambda>cmd. py_any (\<lambda>s. py_in s cmd) ss) ks = Inr b" by simp
    from Cons.IH[OF this] Cons.prems(2) False e show ?thesis by simp
  qed
qed

lemma procfs_key_contains:
  assumes "py_any (\<lambda>path. py_in s path) ks = Inr b" and "\<forall>k\<in>set ks. hashable k"
  shows "b = (\<exists>k\<in>set ks. key_contains k s)"
  using py_any_Inr[OF assms(1)] assms(2) by (auto simp: py_in_hashable)

text \<open>
  Claim C5. Whenever \<^verbatim>\<open>get_stats\<close> returns a report, its risk flags are exactly the tags
  whose predicates hold, in the fixed order: \<^verbatim>\<open>sensitive_file_access\<close> iff some key of
  \<^verbatim>\<open>file_access\<close> contains one of the four sensitive paths as a substring,
  \<^verbatim>\<open>shell_spawned\<close> iff some key of \<^verbatim>\<open>executed_commands\<close> contains one of the four shell
  names, \<^verbatim>\<open>network_activity\<close> iff the IP usage map is not empty, \<^verbatim>\<open>procfs_access\<close> iff
  some key of \<^verbatim>\<open>file_access\<close> contains \<^verbatim>\<open>/proc\<close>.
\<close>

theorem get_stats_risk_flags:
  assumes "get_stats repr db collection_name = Inr r"
  shows "risk_flags r =
     (if \<exists>k\<in>set (map fst (file_access r)).
           \<exists>s\<in>{''/etc/passwd'', ''/etc/shadow'', ''/root'', ''.ssh''}. key_contains k s
      then [''sensitive_file_access''] else [])
   @ (if \<exists>k\<in>set (map fst (executed_commands r)).
           \<exists>s\<in>{''/bin/sh'', ''/bin/bash'', ''sh'', ''bash''}. key_contains k s
      then [''shell_spawned''] else [])
   @ (if ips r \<noteq> [] then [''network_activity''] else [])
   @ (if \<exists>k\<in>set (map fst (file_access r)). key_contains k ''/proc''
      then [''procfs_access''] else [])"
proof -
  from assms obtain coll sp fa hits ec shell ip dns procfs where
    fa: "dict_of [] (file_pipeline coll) = Inr fa"
    and hits: "py_filter (\<lambda>path. py_any (\<lambda>s. py_in s path) SENSITIVE_PATHS) (map fst fa) = Inr hits"
    and ec: "dict_of [] (exec_pipeline coll) = Inr ec"
    and shell: "py_any (\<lambda>cmd. py_any (\<lambda>shell. py_in shell cmd) SHELL_BINARIES) (map fst ec)
                  = Inr shell"
    and procfs: "py_any (\<lambda>path. py_in ''/proc'' path) (map fst fa) = Inr procfs"
    and r: "r = \<lparr>collection = collection_name, total_events = length coll,
                 syscall_profile = sp, file_access = fa, executed_commands = ec,
                 ips = ip, dns_records = dns,
                 risk_flags = flags (hits \<noteq> []) shell (ip \<noteq> []) procfs\<rparr>"
    by (auto simp: get_stats_def split: option.splits sum.splits)
  have hfa: "\<forall>k\<in>set (map fst fa). hashable k"
    using dict_of_hashable[OF fa] by simp
  have hec: "\<forall>k\<in>set (map fst ec). hashable k"
    using dict_of_hashable[OF ec] by simp
  have s1: "set SENSITIVE_PATHS = {''/etc/passwd'', ''/etc/shadow'', ''/root'', ''.ssh''}"
    by (simp add: SENSITIVE_PATHS_def)
  have s2: "set SHELL_BINARIES = {''/bin/sh'', ''/bin/bash'', ''sh'', ''bash''}"
    by (simp add: SHELL_BINARIES_def)
  note 1 = any_key_contains[OF hits hfa, unfolded s1]
  note 2 = shell_key_contains[OF shell hec, unfolded s2]
  note 3 = procfs_key_contains[OF procfs hfa]
  have "risk_flags r = flags (hits \<noteq> []) shell (ip \<noteq> []) procfs"
    by (simp add: r)
  also have "\<dots> = flags
      (\<exists>k\<in>set (map fst fa).
           \<exists>s\<in>{''/etc/passwd'', ''/etc/shadow'', ''/root'', ''.ssh''}. key_contains k s)
      (\<exists>k\<in>set (map fst ec).
           \<exists>s\<in>{''/bin/sh'', ''/bin/bash'', ''sh'', ''bash''}. key_contains k s)
      (ip \<noteq> [])
      (\<exists>k\<in>set (map fst fa). key_contains k ''/proc'')"
    by (simp only: 1 2 3)
  finally show ?thesis
    by (simp only: flags_def r report.simps)
qed


lemma get_stats_example:
  "get_stats (\<lambda>v. [])
     [''tracee_1'' \<mapsto>
        [[(''eventName'', BStr ''openat''),
          (''args'', BArr [BDoc [(''name'', BStr ''pathname''), (''value'', BStr ''/proc/1/root'')]])],
         [(''eventName'', BStr ''execve''),
          (''args'', BArr [BDoc [(''name'', BStr ''pathname''), (''value'', BStr ''/usr/bin/python'')]])],
         [(''eventName'', BStr ''connect''),
          (''args'', BArr [BDoc [(''name'', BStr ''addr''), (''value'', BStr ''10.0.0.1'')]])]]]
     ''tracee_1''
   = Inr \<lparr>collection = ''tracee_1'', total_events = 3,
          syscall_profile = [(BStr ''openat'', 1), (BStr ''execve'', 1), (BStr ''connect'', 1)],
          file_access = [(BStr ''/proc/1/root'', 1)],
          executed_commands = [(BStr ''/usr/bin/python'', 1)],
          ips = [(BStr ''10.0.0.1'', 1)], dns_records = [],
          risk_flags = [''sensitive_file_access'', ''network_activity'', ''procfs_access'']\<rparr>"
  by (simp add: get_stats_def pipeline_defs ip_key_def flags_def py_eq_def
      SENSITIVE_PATHS_def SHELL_BINARIES_def)

theorem get_stats_risk_flags_witness:
  "\<exists>r. get_stats (\<lambda>v. [])
     [''tracee_1'' \<mapsto>
        [[(''eventName'', BStr ''openat''),
          (''args'', BArr [BDoc [(''name'', BStr ''pathname''), (''value'', BStr ''/proc/1/root'')]])],
         [(''eventName'', BStr ''execve''),
          (''args'', BArr [BDoc [(''name'', BStr ''pathname''), (''value'', BStr ''/usr/bin/python'')]])],
         [(''eventName'', BStr ''connect''),
          (''args'', BArr [BDoc [(''name'', BStr ''addr''), (''value'', BStr ''10.0.0.1'')]])]]]
     ''tracee_1'' = Inr r
   \<and> risk_flags r = [''sensitive_file_access'', ''network_activity'', ''procfs_access'']
   \<and> risk_flags r =
     (if \<exists>k\<in>set (map fst (file_access r)).
           \<exists>s\<in>{''/etc/passwd'', ''/etc/shadow'', ''/root'', ''.ssh''}. key_contains k s
      then [''sensitive_file_access''] else [])
   @ (if \<exists>k\<in>set (map fst (executed_commands r)).
           \<exists>s\<in>{''/bin/sh'', ''/bin/bash'', ''sh'', ''bash''}. key_contains k s
      then [''shell_spawned''] else [])
   @ (if ips r \<noteq> [] then [''network_activity''] else [])
   @ (if \<exists>k\<in>set (map fst (file_access r)). key_contains k ''/proc''
      then [''procfs_access''] else [])"
  using get_stats_risk_flags[OF get_stats_example] get_stats_example
  by (intro exI conjI) (assumption, simp, assumption)

lemma key_int_BStr: "key_int a = BStr p \<longleftrightarrow> a = BStr p"
  by (cases a) auto

lemma py_eq_BStr: "py_eq a (BStr p) \<longleftrightarrow> a = BStr p" "py_eq (BStr p) a \<longleftrightarrow> a = BStr p"
  using key_int_BStr[of a p] by (auto simp: py_eq_def)

lemma map_of_dict_set:
  "map_of (dict_set d k v) (BStr p) = (if k = BStr p then Some v else map_of d (BStr p))"
  by (induction d) (auto simp: py_eq_BStr)

lemma map_of_dict_of:
  "dict_of d0 items = Inr d \<Longrightarrow>
   map_of d (BStr p) =
     (if BStr p \<in> set (map fst items) then map_of (rev items) (BStr p) else map_of d0 (BStr p))"
proof (induction d0 items arbitrary: d rule: dict_of.induct)
  case (1 d0)
  then show ?case by simp
next
  case (2 d0 k c items)
  from "2.prems" have h: "hashable k" and rest: "dict_of (dict_set d0 k c) items = Inr d"
    by (auto split: if_splits)
  note ih = "2.IH"[OF h rest]
  show ?case
  proof (cases "BStr p \<in> set (map fst items)")
    case True
    then have "BStr p \<in> set (map fst (rev items))" by simp
    then obtain y where "map_of (rev items) (BStr p) = Some y"
      by (metis map_of_eq_None_iff not_Some_eq set_map)
    with True ih show ?thesis by (simp add: map_add_def)
  next
    case False
    then have "BStr p \<notin> set (map fst (rev items))" by simp
    then have "map_of (rev items) (BStr p) = None"
      by (metis map_of_eq_None_iff set_map)
    with False ih show ?thesis by (auto simp: map_of_dict_set map_add_def)
  qed
qed

lemma map_of_rev_distinct:
  "distinct (map fst items) \<Longrightarrow> map_of (rev items) = map_of items"
  by (subst map_of_inject_set) (simp_all add: rev_map[symmetric])

lemma distinct_keys_sort_key:
  "distinct (map fst (sort_key f xs)) = distinct (map fst xs)"
proof -
  have "mset (map fst (sort_key f xs)) = mset (map fst xs)" by simp
  then show ?thesis by (rule mset_eq_imp_distinct_iff)
qed

lemma map_of_group_count:
  "map_of (group_count ks) k = (if k \<in> set ks then Some (count_list ks k) else None)"
  by (simp add: group_count_def map_of_map_restrict restrict_map_def)

lemma distinct_group_count: "distinct (map fst (group_count ks))"
  by (simp add: group_count_def comp_def)

lemma map_of_sorted_groups:
  "map_of (sort_count_desc (group_count ks)) = map_of (group_count ks)"
  unfolding sort_count_desc_def
  by (subst map_of_inject_set) (simp_all add: distinct_keys_sort_key distinct_group_count)

lemma dict_of_groups:
  assumes "dict_of [] (sort_count_desc (group_count ks)) = Inr d"
  shows "map_of d (BStr p) =
           (if count_list ks (BStr p) = 0 then None else Some (count_list ks (BStr p)))"
proof -
  let ?items = "sort_count_desc (group_count ks)"
  have dist: "distinct (map fst ?items)"
    by (simp add: sort_count_desc_def distinct_keys_sort_key distinct_group_count)
  have m: "map_of (rev ?items) = map_of (group_count ks)"
    using map_of_rev_distinct[OF dist] map_of_sorted_groups by simp
  have "map_of d (BStr p) = map_of (group_count ks) (BStr p)"
  proof (cases "BStr p \<in> set (map fst ?items)")
    case True
    with map_of_dict_of[OF assms, of p] m show ?thesis by simp
  next
    case False
    then have "map_of ?items (BStr p) = None"
      by (metis map_of_eq_None_iff set_map)
    with False map_of_dict_of[OF assms, of p] map_of_sorted_groups show ?thesis by simp
  qed
  then show ?thesis
    by (simp add: map_of_group_count count_list_0_iff)
qed


lemma map_of_set_field:
  "map_of d k = Some y \<Longrightarrow> map_of (set_field k x d) k = Some x"
  by (induction d) (auto simp: set_field_def split: if_splits)

lemma arg_keys_Cons:
  "arg_keys event name (d # coll) = arg_keys event name [d] @ arg_keys event name coll"
  by (simp add: arg_keys_def match_event_def unwind_def match_arg_def)

lemma named_pair_match:
  "named_pair a \<Longrightarrow>
   (matches_sub (Some a) ''name'' (BStr name) \<and> group_id (sub_path ''value'' a) = v)
     = is_pair name v a"
  by (auto simp: named_pair_def matches_sub_def matches_eq_def is_pair_def
      split: bson.splits option.splits)

lemma count_unwound:
  assumes "map_of d ''args'' = Some y" and "list_all named_pair as"
  shows "count_list
           (map (\<lambda>d'. group_id (case map_of d' ''args'' of None \<Rightarrow> None
                                   | Some a \<Rightarrow> sub_path ''value'' a))
              (filter (\<lambda>d'. matches_sub (map_of d' ''args'') ''name'' (BStr name))
                 (map (\<lambda>x. set_field ''args'' x d) as))) v
         = length (filter (is_pair name v) as)"
  using assms(2)
proof (induction as)
  case Nil
  then show ?case by simp
next
  case (Cons a as)
  then have a: "named_pair a" and as: "list_all named_pair as" by simp_all
  note m = map_of_set_field[OF assms(1), of a]
  from named_pair_match[OF a, of name v] Cons.IH[OF as] show ?case
    by (auto simp: m)
qed

lemma count_arg_keys_single:
  assumes "event_shaped d"
  shows "count_list (arg_keys event name [d]) v =
           (if map_of d ''eventName'' = Some (BStr event) then pair_count name v d else 0)"
proof -
  from assms obtain n as where n: "map_of d ''eventName'' = Some (BStr n)"
    and as: "map_of d ''args'' = Some (BArr as)" "list_all named_pair as"
    by (auto simp: event_shaped_def split: option.splits bson.splits)
  show ?thesis
  proof (cases "n = event")
    case True
    with n as count_unwound[OF as(1) as(2), of name v] show ?thesis
      by (simp add: arg_keys_def match_event_def unwind_def unwind_doc_def match_arg_def
          matches_eq_def pair_count_def)
  next
    case False
    with n show ?thesis
      by (simp add: arg_keys_def match_event_def unwind_def match_arg_def matches_eq_def)
  qed
qed

lemma count_arg_keys:
  "list_all event_shaped coll \<Longrightarrow>
   count_list (arg_keys event name coll) v = occurrences event name v coll"
proof (induction coll)
  case Nil
  then show ?case
    by (simp add: arg_keys_def match_event_def unwind_def match_arg_def occurrences_def)
next
  case (Cons d coll)
  then have d: "event_shaped d" and c: "list_all event_shaped coll" by simp_all
  have "count_list (arg_keys event name (d # coll)) v
          = count_list (arg_keys event name [d]) v + count_list (arg_keys event name coll) v"
    by (subst arg_keys_Cons) simp
  with count_arg_keys_single[OF d, of event name v] Cons.IH[OF c] show ?case
    by (simp add: occurrences_def)
qed

lemma py_eq_refl: "py_eq k k"
  by (simp add: py_eq_def)

lemma dict_set_keeps: "y \<in> set d \<Longrightarrow> \<exists>x\<in>set (dict_set d k v). fst x = fst y"
  by (induction d) auto

lemma dict_set_covers: "\<exists>x\<in>set (dict_set d k v). py_eq (fst x) k"
  by (induction d) (force simp: py_eq_refl)+

lemma dict_set_entry:
  "(k', c) \<in> set (dict_set d k v) \<Longrightarrow> (k', c) \<in> set d \<or> (c = v \<and> py_eq k' k)"
  by (induction d) (auto simp: py_eq_refl split: if_splits)

lemma ip_loop_keys:
  "ip_loop repr d0 items = Inr d \<Longrightarrow> x \<in> set d \<Longrightarrow>
   (\<exists>y\<in>set d0. fst y = fst x) \<or> (\<exists>i\<in>set items. fst x = ip_key repr (fst i))"
proof (induction repr d0 items arbitrary: d rule: ip_loop.induct)
  case (1 repr d0)
  then show ?case by auto
next
  case (2 repr d0 addr c items)
  from "2.prems"(1) have h: "hashable (ip_key repr addr)"
    and rest: "ip_loop repr (dict_set d0 (ip_key repr addr) c) items = Inr d"
    by (auto simp: Let_def split: if_splits)
  from "2.IH"[OF refl h rest "2.prems"(2)]
  show ?case
  proof
    assume "\<exists>y\<in>set (dict_set d0 (ip_key repr addr) c). fst y = fst x"
    then obtain y where y: "y \<in> set (dict_set d0 (ip_key repr addr) c)" "fst y = fst x" by blast
    from dict_set_keys[OF y(1)] y(2) show ?thesis by auto
  next
    assume "\<exists>i\<in>set items. fst x = ip_key repr (fst i)"
    then show ?thesis by auto
  qed
qed

lemma ip_loop_keeps:
  "ip_loop repr d0 items = Inr d \<Longrightarrow> y \<in> set d0 \<Longrightarrow> \<exists>x\<in>set d. fst x = fst y"
proof (induction repr d0 items arbitrary: d y rule: ip_loop.induct)
  case (1 repr d0)
  then show ?case by auto
next
  case (2 repr d0 addr c items)
  from "2.prems"(1) have h: "hashable (ip_key repr addr)"
    and rest: "ip_loop repr (dict_set d0 (ip_key repr addr) c) items = Inr d"
    by (auto simp: Let_def split: if_splits)
  from dict_set_keeps[OF "2.prems"(2), of "ip_key repr addr" c]
  obtain z where z: "z \<in> set (dict_set d0 (ip_key repr addr) c)" "fst z = fst y" by blast
  from "2.IH"[OF refl h rest z(1)] z(2) show ?case by auto
qed

lemma ip_loop_covers:
  "ip_loop repr d0 items = Inr d \<Longrightarrow> i \<in> set items \<Longrightarrow>
   \<exists>x\<in>set d. py_eq (fst x) (ip_key repr (fst i))"
proof (induction repr d0 items arbitrary: d rule: ip_loop.induct)
  case (1 repr d0)
  then show ?case by auto
next
  case (2 repr d0 addr c items)
  from "2.prems"(1) have h: "hashable (ip_key repr addr)"
    and rest: "ip_loop repr (dict_set d0 (ip_key repr addr) c) items = Inr d"
    by (auto simp: Let_def split: if_splits)
  from "2.prems"(2) consider "i = (addr, c)" | "i \<in> set items" by auto
  then show ?case
  proof cases
    case 1
    from dict_set_covers[of d0 "ip_key repr addr" c]
    obtain z where z: "z \<in> set (dict_set d0 (ip_key repr addr) c)"
      "py_eq (fst z) (ip_key repr addr)" by blast
    from ip_loop_keeps[OF rest z(1)] obtain x where "x \<in> set d" "fst x = fst z" by blast
    with z(2) 1 show ?thesis by (intro bexI[of _ x]) simp_all
  next
    case 2
    from "2.IH"[OF refl h rest 2] show ?thesis .
  qed
qed

lemma ip_loop_entry:
  "ip_loop repr d0 items = Inr d \<Longrightarrow> (k, c) \<in> set d \<Longrightarrow>
   (k, c) \<in> set d0 \<or> (\<exists>i\<in>set items. snd i = c \<and> py_eq k (ip_key repr (fst i)))"
proof (induction repr d0 items arbitrary: d rule: ip_loop.induct)
  case (1 repr d0)
  then show ?case by auto
next
  case (2 repr d0 addr c' items)
  from "2.prems"(1) have h: "hashable (ip_key repr addr)"
    and rest: "ip_loop repr (dict_set d0 (ip_key repr addr) c') items = Inr d"
    by (auto simp: Let_def split: if_splits)
  from "2.IH"[OF refl h rest "2.prems"(2)]
  show ?case
  proof
    assume "(k, c) \<in> set (dict_set d0 (ip_key repr addr) c')"
    from dict_set_entry[OF this] show ?thesis by auto
  next
    assume "\<exists>i\<in>set items. snd i = c \<and> py_eq k (ip_key repr (fst i))"
    then show ?thesis by auto
  qed
qed

lemma set_sorted_groups:
  "set (sort_count_desc (group_count ks)) = {(k, count_list ks k) | k. k \<in> set ks}"
  by (auto simp: sort_count_desc_def group_count_def)

lemma ip_pipeline_groups:
  assumes "list_all event_shaped coll"
  shows "i \<in> set (ip_pipeline coll) \<longleftrightarrow>
           snd i = occurrences ''connect'' ''addr'' (fst i) coll \<and> 0 < snd i"
proof -
  have "i \<in> set (ip_pipeline coll) \<longleftrightarrow>
          fst i \<in> set (arg_keys ''connect'' ''addr'' coll)
          \<and> snd i = count_list (arg_keys ''connect'' ''addr'' coll) (fst i)"
    by (cases i) (auto simp: ip_pipeline_def arg_pipeline_def set_sorted_groups)
  also have "\<dots> \<longleftrightarrow> snd i = occurrences ''connect'' ''addr'' (fst i) coll \<and> 0 < snd i"
    using count_arg_keys[OF assms, of "''connect''" "''addr''" "fst i"]
          count_list_0_iff[of "arg_keys ''connect'' ''addr'' coll" "fst i"]
    by auto
  finally show ?thesis .
qed

lemma get_stats_ips:
  "db collection_name = Some coll \<Longrightarrow> get_stats repr db collection_name = Inr r \<Longrightarrow>
   ip_loop repr [] (ip_pipeline coll) = Inr (ips r)"
  by (auto simp: get_stats_def split: option.splits sum.splits)

lemma ips_keys:
  assumes "db collection_name = Some coll" "list_all event_shaped coll"
    "get_stats repr db collection_name = Inr r"
  shows "(\<forall>k\<in>set (map fst (ips r)).
            \<exists>addr. 0 < occurrences ''connect'' ''addr'' addr coll \<and> k = ip_key repr addr)
       \<and> (\<forall>addr. 0 < occurrences ''connect'' ''addr'' addr coll \<longrightarrow>
            (\<exists>k\<in>set (map fst (ips r)). py_eq k (ip_key repr addr)))
       \<and> (\<forall>k c. (k, c) \<in> set (ips r) \<longrightarrow>
            (\<exists>addr. py_eq k (ip_key repr addr)
                \<and> c = occurrences ''connect'' ''addr'' addr coll \<and> 0 < c))"
proof (intro conjI ballI allI impI)
  note loop = get_stats_ips[OF assms(1,3)]
  note grp = ip_pipeline_groups[OF assms(2)]
  {
    fix k assume "k \<in> set (map fst (ips r))"
    then obtain x where x: "x \<in> set (ips r)" "fst x = k" by auto
    from ip_loop_keys[OF loop x(1)] obtain i where
      i: "i \<in> set (ip_pipeline coll)" "fst x = ip_key repr (fst i)" by auto
    with grp[of i] x(2)
    show "\<exists>addr. 0 < occurrences ''connect'' ''addr'' addr coll \<and> k = ip_key repr addr"
      by auto
  }
  {
    fix addr assume "0 < occurrences ''connect'' ''addr'' addr coll"
    then have "(addr, occurrences ''connect'' ''addr'' addr coll) \<in> set (ip_pipeline coll)"
      using grp[of "(addr, occurrences ''connect'' ''addr'' addr coll)"] by simp
    from ip_loop_covers[OF loop this]
    show "\<exists>k\<in>set (map fst (ips r)). py_eq k (ip_key repr addr)" by auto
  }
  {
    fix k c assume "(k, c) \<in> set (ips r)"
    from ip_loop_entry[OF loop this] obtain i where
      i: "i \<in> set (ip_pipeline coll)" "snd i = c" "py_eq k (ip_key repr (fst i))" by auto
    with grp[of i]
    show "\<exists>addr. py_eq k (ip_key repr addr)
                \<and> c = occurrences ''connect'' ''addr'' addr coll \<and> 0 < c"
      by auto
  }
qed

lemma count_list_map:
  "count_list (map f xs) v = length (filter (\<lambda>x. f x = v) xs)"
  by (induction xs) auto

lemma dns_keys_Cons: "dns_keys (d # coll) = dns_keys [d] @ dns_keys coll"
  by (simp add: dns_keys_def match_event_def unwind_def match_arg_def unwind_sub_def)

lemma count_questions:
  assumes "map_of d ''args'' = Some y"
  shows "count_list
           (map (\<lambda>d'. group_id
                    (case map_of d' ''args'' of
                       None \<Rightarrow> None
                     | Some a \<Rightarrow>
                         (case sub_path ''value'' a of
                            None \<Rightarrow> None
                          | Some v \<Rightarrow> sub_path ''query'' v)))
              (unwind_sub_doc ''args'' ''value'' (set_field ''args'' (BDoc kvs) d))) q
         = length (filter (\<lambda>x. group_id (sub_path ''query'' x) = q)
                     (question_list (map_of kvs ''value'')))"
proof -
  let ?d' = "set_field ''args'' (BDoc kvs) d"
  have a: "map_of ?d' ''args'' = Some (BDoc kvs)"
    by (rule map_of_set_field[OF assms])
  have b: "map_of (set_field ''args'' (BDoc kvs') ?d') ''args'' = Some (BDoc kvs')" for kvs'
    by (rule map_of_set_field[OF a])
  show ?thesis
  proof (cases "map_of kvs ''value''")
    case None
    then show ?thesis
      by (simp add: unwind_sub_doc_def a unwind_doc_def question_list_def)
  next
    case (Some v)
    show ?thesis
    proof (cases v)
      case (BArr xs)
      have c: "map_of (set_field ''value'' x kvs) ''value'' = Some x" for x
        by (rule map_of_set_field[OF Some])
      from Some BArr show ?thesis
        by (simp add: unwind_sub_doc_def a unwind_doc_def question_list_def b c comp_def
            count_list_map)
    qed (use Some in \<open>simp_all add: unwind_sub_doc_def a unwind_doc_def question_list_def b\<close>)
  qed
qed

lemma named_pair_cases:
  assumes "named_pair a"
  shows "\<exists>kvs n. a = BDoc kvs \<and> map_of kvs ''name'' = Some (BStr n)"
proof (cases a)
  case (BDoc kvs)
  with assms obtain x where x: "map_of kvs ''name'' = Some x"
    by (cases "map_of kvs ''name''") (simp_all add: named_pair_def)
  with assms BDoc have "\<exists>n. x = BStr n"
    by (cases x) (simp_all add: named_pair_def)
  with BDoc x show ?thesis by blast
qed (use assms in \<open>simp_all add: named_pair_def\<close>)

lemma count_dns_unwound:
  assumes "map_of d ''args'' = Some y" and "list_all named_pair as"
  shows "count_list
           (map (\<lambda>d'. group_id
                    (case map_of d' ''args'' of
                       None \<Rightarrow> None
                     | Some a \<Rightarrow>
                         (case sub_path ''value'' a of
                            None \<Rightarrow> None
                          | Some v \<Rightarrow> sub_path ''query'' v)))
              (concat (map (unwind_sub_doc ''args'' ''value'')
                 (filter (\<lambda>d'. matches_sub (map_of d' ''args'') ''name'' (BStr ''dns_questions''))
                    (map (\<lambda>x. set_field ''args'' x d) as))))) q
         = sum_list (map (question_count q) as)"
  using assms(2)
proof (induction as)
  case Nil
  then show ?case by simp
next
  case (Cons a as)
  then have a: "named_pair a" and as: "list_all named_pair as" by simp_all
  from named_pair_cases[OF a] obtain kvs n
    where kvs: "a = BDoc kvs" "map_of kvs ''name'' = Some (BStr n)"
    by blast
  note m = map_of_set_field[OF assms(1), of a]
  show ?case
  proof (cases "n = ''dns_questions''")
    case True
    with kvs m Cons.IH[OF as] count_questions[OF assms(1), of kvs q] show ?thesis
      by (simp add: matches_sub_def matches_eq_def question_count_def)
  next
    case False
    with kvs m Cons.IH[OF as] show ?thesis
      by (simp add: matches_sub_def matches_eq_def question_count_def)
  qed
qed

lemma count_dns_keys_single:
  assumes "event_shaped d"
  shows "count_list (dns_keys [d]) q =
           (if map_of d ''eventName'' = Some (BStr ''net_packet_dns_request'')
            then (case map_of d ''args'' of
                    Some (BArr as) \<Rightarrow> sum_list (map (question_count q) as)
                  | _ \<Rightarrow> 0)
            else 0)"
proof -
  from assms obtain n as where n: "map_of d ''eventName'' = Some (BStr n)"
    and as: "map_of d ''args'' = Some (BArr as)" "list_all named_pair as"
    by (auto simp: event_shaped_def split: option.splits bson.splits)
  show ?thesis
  proof (cases "n = ''net_packet_dns_request''")
    case True
    with n as count_dns_unwound[OF as(1) as(2), of q] show ?thesis
      by (simp add: dns_keys_def match_event_def unwind_def unwind_doc_def match_arg_def
          unwind_sub_def matches_eq_def)
  next
    case False
    with n show ?thesis
      by (simp add: dns_keys_def match_event_def unwind_def match_arg_def unwind_sub_def
          matches_eq_def)
  qed
qed

lemma count_dns_keys:
  "list_all event_shaped coll \<Longrightarrow> count_list (dns_keys coll) q = dns_occurrences q coll"
proof (induction coll)
  case Nil
  then show ?case
    by (simp add: dns_keys_def match_event_def unwind_def match_arg_def unwind_sub_def
        dns_occurrences_def)
next
  case (Cons d coll)
  then have d: "event_shaped d" and c: "list_all event_shaped coll" by simp_all
  have "count_list (dns_keys (d # coll)) q
          = count_list (dns_keys [d]) q + count_list (dns_keys coll) q"
    by (subst dns_keys_Cons) simp
  with count_dns_keys_single[OF d, of q] Cons.IH[OF c] show ?case
    by (simp add: dns_occurrences_def)
qed

lemma count_event_names:
  "count_list (map (\<lambda>d. group_id (map_of d ''eventName'')) coll) (BStr n)
     = length (filter (\<lambda>d. map_of d ''eventName'' = Some (BStr n)) coll)"
proof -
  have "(group_id (map_of d ''eventName'') = BStr n) = (map_of d ''eventName'' = Some (BStr n))"
    for d :: doc
    by (auto simp: group_id_def split: option.splits)
  then show ?thesis by (simp add: count_list_map)
qed

lemma any_pair_selects:
  assumes "map_of event ''eventName'' = Some (BStr name)"
    and "map_of event ''args'' = Some (BArr (before @ BDoc kvs # after))"
    and "map_of kvs ''name'' = Some (BStr ''pathname'')"
    and "map_of kvs ''value'' = Some (BStr v)"
  shows "name = ''execve'' \<longrightarrow> command_query v event"
    and "name = ''openat'' \<longrightarrow> file_query v event"
  using assms
  by (auto simp: command_query_def file_query_def matches_eq_def elem_match_def arg_cond_def)

lemma any_question_selects:
  assumes "map_of event ''eventName'' = Some (BStr ''net_packet_dns_request'')"
    and "map_of event ''args'' = Some (BArr (before @ BDoc kvs # after))"
    and "map_of kvs ''name'' = Some (BStr ''dns_questions'')"
    and "map_of kvs ''value'' = Some (BArr (qbefore @ BDoc q # qafter))"
    and "map_of q ''query'' = Some (BStr v)"
  shows "dns_query v event"
  using assms
  by (auto simp: dns_query_def matches_eq_def elem_match_def arg_cond_def question_cond_def)
text \<open>
  Claim C6, as stated, fails when the port is present and is 0: \<^verbatim>\<open>if port\<close> tests the
  truth value of the port, so the key of \<^verbatim>\<open>{ip: "10.0.0.1", port: 0}\<close> is the bare
  \<^verbatim>\<open>"10.0.0.1"\<close>, not \<^verbatim>\<open>"10.0.0.1:0"\<close>.
\<close>

theorem ip_key_port_zero_counterexample:
  "get_stats (\<lambda>v. [])
     [''tracee_1'' \<mapsto>
        [[(''eventName'', BStr ''connect''),
          (''args'', BArr [BDoc [(''name'', BStr ''addr''),
                                 (''value'', BDoc [(''ip'', BStr ''10.0.0.1''),
                                                   (''port'', BInt 0)])]])]]]
     ''tracee_1''
   = Inr \<lparr>collection = ''tracee_1'', total_events = 1,
          syscall_profile = [(BStr ''connect'', 1)],
          file_access = [], executed_commands = [],
          ips = [(BStr ''10.0.0.1'', 1)], dns_records = [],
          risk_flags = [''network_activity'']\<rparr>"
  by (simp add: get_stats_def pipeline_defs ip_key_def flags_def)

lemma get_stats_one_connect:
  assumes "db collection_name =
             Some [[(''eventName'', BStr ''connect''),
                    (''args'', BArr [BDoc [(''name'', BStr ''addr''), (''value'', addr)]])]]"
    and "hashable (ip_key repr addr)"
  shows "get_stats repr db collection_name
   = Inr \<lparr>collection = collection_name, total_events = 1,
          syscall_profile = [(BStr ''connect'', 1)],
          file_access = [], executed_commands = [],
          ips = [(ip_key repr addr, 1)], dns_records = [],
          risk_flags = [''network_activity'']\<rparr>"
  using assms by (simp add: get_stats_def pipeline_defs flags_def)

text \<open>
  Claim C6, amended. For an \<^verbatim>\<open>addr\<close> that is a dictionary with an \<^verbatim>\<open>ip\<close>, the key is
  \<^verbatim>\<open>"ip:port"\<close> when the port is present and true as a Python value (not 0, not empty,
  not \<^verbatim>\<open>None\<close>), and the \<^verbatim>\<open>ip\<close> itself otherwise; for a value that is not a dictionary
  the key is \<^verbatim>\<open>str\<close> of the value. A collection of one connect event with an address
  \<^verbatim>\<open>{ip, port}\<close>, the port a number other than 0, gives the IP usage map
  \<^verbatim>\<open>{"ip:port": 1}\<close>: \<^verbatim>\<open>"10.0.0.1:443"\<close> for \<^verbatim>\<open>{ip: "10.0.0.1", port: 443}\<close>.
  And for every collection of events in the shape of the data model and every report that
  \<^verbatim>\<open>get_stats\<close> returns, the keys of the IP usage map are computed by this rule from the
  selected connect events: every key of the map is the key \<open>ip_key\<close> of the \<^verbatim>\<open>addr\<close> value
  of some connect event, and the key of the \<^verbatim>\<open>addr\<close> value of every connect event is in
  the map (as Python compares keys, \<open>py_eq\<close>).
\<close>

theorem ip_usage_key:
  "(\<forall>kvs ip port. map_of kvs ''ip'' = Some ip \<and> map_of kvs ''port'' = Some port \<and> truthy port
        \<longrightarrow> ip_key repr (BDoc kvs) = BStr (py_str repr ip @ '':'' @ py_str repr port))
   \<and> (\<forall>kvs ip. map_of kvs ''ip'' = Some ip
            \<and> (map_of kvs ''port'' = None
                 \<or> (\<exists>port. map_of kvs ''port'' = Some port \<and> \<not> truthy port))
        \<longrightarrow> ip_key repr (BDoc kvs) = ip)
   \<and> (\<forall>addr. \<not> is_document addr \<longrightarrow> ip_key repr addr = BStr (py_str repr addr))
   \<and> (\<forall>db collection_name ip port.
         port \<noteq> 0
         \<and> db collection_name =
             Some [[(''eventName'', BStr ''connect''),
                    (''args'', BArr [BDoc [(''name'', BStr ''addr''),
                                           (''value'', BDoc [(''ip'', BStr ip),
                                                             (''port'', BInt port)])]])]]
        \<longrightarrow> (\<exists>r. get_stats repr db collection_name = Inr r
                 \<and> ips r = [(BStr (ip @ '':'' @ str_int port), 1)]))
   \<and> (\<forall>db collection_name coll r.
         db collection_name = Some coll \<and> list_all event_shaped coll
         \<and> get_stats repr db collection_name = Inr r
        \<longrightarrow> (\<forall>k\<in>set (map fst (ips r)).
               \<exists>addr. 0 < occurrences ''connect'' ''addr'' addr coll \<and> k = ip_key repr addr)
            \<and> (\<forall>addr. 0 < occurrences ''connect'' ''addr'' addr coll \<longrightarrow>
                  (\<exists>k\<in>set (map fst (ips r)). py_eq k (ip_key repr addr))))"
proof (intro conjI allI impI)
  fix kvs ip port
  assume "map_of kvs ''ip'' = Some ip \<and> map_of kvs ''port'' = Some port \<and> truthy port"
  then show "ip_key repr (BDoc kvs) = BStr (py_str repr ip @ '':'' @ py_str repr port)"
    by (simp add: ip_key_def)
next
  fix kvs ip
  assume "map_of kvs ''ip'' = Some ip
            \<and> (map_of kvs ''port'' = None
                 \<or> (\<exists>port. map_of kvs ''port'' = Some port \<and> \<not> truthy port))"
  then show "ip_key repr (BDoc kvs) = ip"
    by (auto simp: ip_key_def)
next
  fix addr
  assume "\<not> is_document addr"
  then show "ip_key repr addr = BStr (py_str repr addr)"
    by (cases addr) (simp_all add: ip_key_def)
next
  fix db :: database and collection_name ip port
  assume a: "port \<noteq> 0
         \<and> db collection_name =
             Some [[(''eventName'', BStr ''connect''),
                    (''args'', BArr [BDoc [(''name'', BStr ''addr''),
                                           (''value'', BDoc [(''ip'', BStr ip),
                                                             (''port'', BInt port)])]])]]"
  then have k: "ip_key repr (BDoc [(''ip'', BStr ip), (''port'', BInt port)])
                  = BStr (ip @ '':'' @ str_int port)"
    by (simp add: ip_key_def)
  from a have "get_stats repr db collection_name
   = Inr \<lparr>collection = collection_name, total_events = 1,
          syscall_profile = [(BStr ''connect'', 1)],
          file_access = [], executed_commands = [],
          ips = [(ip_key repr (BDoc [(''ip'', BStr ip), (''port'', BInt port)]), 1)],
          dns_records = [],
          risk_flags = [''network_activity'']\<rparr>"
    by (intro get_stats_one_connect) (simp_all add: k)
  then show "\<exists>r. get_stats repr db collection_name = Inr r
                 \<and> ips r = [(BStr (ip @ '':'' @ str_int port), 1)]"
    by (simp add: k)
next
  fix db :: database and collection_name coll r
  assume a: "db collection_name = Some coll \<and> list_all event_shaped coll
         \<and> get_stats repr db collection_name = Inr r"
  then have 1: "db collection_name = Some coll" and 2: "list_all event_shaped coll"
    and 3: "get_stats repr db collection_name = Inr r"
    by simp_all
  from ips_keys[OF 1 2 3]
  show "\<forall>k\<in>set (map fst (ips r)).
               \<exists>addr. 0 < occurrences ''connect'' ''addr'' addr coll \<and> k = ip_key repr addr"
    by (rule conjunct1)
next
  fix db :: database and collection_name coll r addr
  assume a: "db collection_name = Some coll \<and> list_all event_shaped coll
         \<and> get_stats repr db collection_name = Inr r"
    and sel: "0 < occurrences ''connect'' ''addr'' addr coll"
  from a have 1: "db collection_name = Some coll" and 2: "list_all event_shaped coll"
    and 3: "get_stats repr db collection_name = Inr r"
    by simp_all
  from ips_keys[OF 1 2 3, THEN conjunct2, THEN conjunct1, rule_format, OF sel]
  show "\<exists>k\<in>set (map fst (ips r)). py_eq k (ip_key repr addr)" .
qed

lemma str_int_443: "str_int 443 = ''443''"
  by (simp add: str_int_def digits.simps)

lemma str_int_53: "str_int 53 = ''53''"
  by (simp add: str_int_def digits.simps)

lemma get_stats_two_connects:
  "get_stats (\<lambda>v. [])
     [''tracee_1'' \<mapsto>
        [[(''eventName'', BStr ''connect''),
          (''args'', BArr [BDoc [(''name'', BStr ''addr''),
                                 (''value'', BDoc [(''ip'', BStr ''10.0.0.1''),
                                                   (''port'', BInt 443)])]])],
         [(''eventName'', BStr ''connect''),
          (''args'', BArr [BDoc [(''name'', BStr ''addr''),
                                 (''value'', BDoc [(''ip'', BStr ''10.0.0.2''),
                                                   (''port'', BInt 53)])]])]]]
     ''tracee_1''
   = Inr \<lparr>collection = ''tracee_1'', total_events = 2,
          syscall_profile = [(BStr ''connect'', 2)],
          file_access = [], executed_commands = [],
          ips = [(BStr ''10.0.0.1:443'', 1), (BStr ''10.0.0.2:53'', 1)], dns_records = [],
          risk_flags = [''network_activity'']\<rparr>"
  by (simp add: get_stats_def pipeline_defs ip_key_def flags_def py_eq_def
      str_int_443 str_int_53)

theorem ip_usage_key_witness:
  "\<exists>r. get_stats (\<lambda>v. [])
     [''tracee_1'' \<mapsto>
        [[(''eventName'', BStr ''connect''),
          (''args'', BArr [BDoc [(''name'', BStr ''addr''),
                                 (''value'', BDoc [(''ip'', BStr ''10.0.0.1''),
                                                   (''port'', BInt 443)])]])],
         [(''eventName'', BStr ''connect''),
          (''args'', BArr [BDoc [(''name'', BStr ''addr''),
                                 (''value'', BDoc [(''ip'', BStr ''10.0.0.2''),
                                                   (''port'', BInt 53)])]])]]]
     ''tracee_1'' = Inr r
   \<and> (\<exists>k\<in>set (map fst (ips r)).
          py_eq k (ip_key (\<lambda>v. []) (BDoc [(''ip'', BStr ''10.0.0.2''), (''port'', BInt 53)])))
   \<and> map fst (ips r) = [BStr ''10.0.0.1:443'', BStr ''10.0.0.2:53'']"
proof -
  let ?coll = "[[(''eventName'', BStr ''connect''),
          (''args'', BArr [BDoc [(''name'', BStr ''addr''),
                                 (''value'', BDoc [(''ip'', BStr ''10.0.0.1''),
                                                   (''port'', BInt 443)])]])],
         [(''eventName'', BStr ''connect''),
          (''args'', BArr [BDoc [(''name'', BStr ''addr''),
                                 (''value'', BDoc [(''ip'', BStr ''10.0.0.2''),
                                                   (''port'', BInt 53)])]])]]"
  let ?r = "\<lparr>collection = ''tracee_1'', total_events = 2,
          syscall_profile = [(BStr ''connect'', 2)],
          file_access = [], executed_commands = [],
          ips = [(BStr ''10.0.0.1:443'', 1 :: nat), (BStr ''10.0.0.2:53'', 1)], dns_records = [],
          risk_flags = [''network_activity'']\<rparr>"
  have 1: "[''tracee_1'' \<mapsto> ?coll] ''tracee_1'' = Some ?coll" by simp
  have 2: "list_all event_shaped ?coll"
    by (simp add: event_shaped_def named_pair_def)
  have 3: "0 < occurrences ''connect'' ''addr''
                 (BDoc [(''ip'', BStr ''10.0.0.2''), (''port'', BInt 53)]) ?coll"
    by (simp add: occurrences_def pair_count_def is_pair_def group_id_def)
  note t = ip_usage_key[where repr = "\<lambda>v. []", THEN conjunct2, THEN conjunct2, THEN conjunct2,
      THEN conjunct2, rule_format, where db = "[''tracee_1'' \<mapsto> ?coll]"
      and collection_name = "''tracee_1''" and coll = ?coll and r = ?r,
      OF conjI[OF 1 conjI[OF 2 get_stats_two_connects]]]
  from t[THEN conjunct2, rule_format, OF 3]
  have "\<exists>k\<in>set (map fst (ips ?r)).
          py_eq k (ip_key (\<lambda>v. []) (BDoc [(''ip'', BStr ''10.0.0.2''), (''port'', BInt 53)]))" .
  then show ?thesis
    by (intro exI[of _ ?r] conjI get_stats_two_connects) simp_all
qed
text \<open>
  Claim C4, amended. No consumer takes only the first pair of a name: each takes every
  matching pair. For a collection of events in the shape of the data model and a report
  that \<^verbatim>\<open>get_stats\<close> returns:
  \<^item> file access and executed commands: the count of a path is the number of
    \<^verbatim>\<open>pathname\<close> pairs with that value over all events of the kind, so an event with \<open>k\<close>
    such pairs contributes \<open>k\<close> occurrences, and the path is absent when there is none;
  \<^item> IP usage: every count of the map is the number of all \<^verbatim>\<open>addr\<close> pairs, over all
    connect events, of one address whose key it is;
  \<^item> DNS usage: the count of a query is the number of questions with that query over
    all \<^verbatim>\<open>dns_questions\<close> pairs of all DNS-request events;
  \<^item> the syscall profile reads no argument: the count of an event name is the number
    of events of that name;
  \<^item> the drill-down selects an event as soon as one of its pairs, at any position,
    has the name and the value asked for (for DNS: one question, at any position, of
    one \<^verbatim>\<open>dns_questions\<close> pair).
\<close>

theorem get_stats_counts_every_pair:
  assumes "db collection_name = Some coll"
    and "list_all event_shaped coll"
    and "get_stats repr db collection_name = Inr r"
  shows "map_of (file_access r) (BStr p) =
           (if occurrences ''openat'' ''pathname'' (BStr p) coll = 0 then None
            else Some (occurrences ''openat'' ''pathname'' (BStr p) coll))
       \<and> map_of (executed_commands r) (BStr p) =
           (if occurrences ''execve'' ''pathname'' (BStr p) coll = 0 then None
            else Some (occurrences ''execve'' ''pathname'' (BStr p) coll))
       \<and> (\<forall>k c. (k, c) \<in> set (ips r) \<longrightarrow>
            (\<exists>addr. py_eq k (ip_key repr addr)
                \<and> c = occurrences ''connect'' ''addr'' addr coll \<and> 0 < c))
       \<and> map_of (dns_records r) (BStr p) =
           (if dns_occurrences (BStr p) coll = 0 then None
            else Some (dns_occurrences (BStr p) coll))
       \<and> map_of (syscall_profile r) (BStr p) =
           (if length (filter (\<lambda>d. map_of d ''eventName'' = Some (BStr p)) coll) = 0 then None
            else Some (length (filter (\<lambda>d. map_of d ''eventName'' = Some (BStr p)) coll)))
       \<and> (\<forall>event before kvs after v.
             event \<in> set coll
             \<and> map_of event ''args'' = Some (BArr (before @ BDoc kvs # after))
             \<and> map_of kvs ''name'' = Some (BStr ''pathname'')
             \<and> map_of kvs ''value'' = Some (BStr v)
           \<longrightarrow> (map_of event ''eventName'' = Some (BStr ''execve'')
                  \<longrightarrow> event \<in> set (filter (command_query v) coll))
               \<and> (map_of event ''eventName'' = Some (BStr ''openat'')
                  \<longrightarrow> event \<in> set (filter (file_query v) coll)))
       \<and> (\<forall>event before kvs after qbefore q qafter v.
             event \<in> set coll
             \<and> map_of event ''eventName'' = Some (BStr ''net_packet_dns_request'')
             \<and> map_of event ''args'' = Some (BArr (before @ BDoc kvs # after))
             \<and> map_of kvs ''name'' = Some (BStr ''dns_questions'')
             \<and> map_of kvs ''value'' = Some (BArr (qbefore @ BDoc q # qafter))
             \<and> map_of q ''query'' = Some (BStr v)
           \<longrightarrow> event \<in> set (filter (dns_query v) coll))"
proof -
  from assms(1,3) have fa: "dict_of [] (file_pipeline coll) = Inr (file_access r)"
    and ec: "dict_of [] (exec_pipeline coll) = Inr (executed_commands r)"
    and dn: "dict_of [] (dns_pipeline coll) = Inr (dns_records r)"
    and sp: "dict_of [] (syscall_pipeline coll) = Inr (syscall_profile r)"
    by (auto simp: get_stats_def split: option.splits sum.splits)
  from fa have "map_of (file_access r) (BStr p) =
           (if count_list (arg_keys ''openat'' ''pathname'' coll) (BStr p) = 0 then None
            else Some (count_list (arg_keys ''openat'' ''pathname'' coll) (BStr p)))"
    unfolding file_pipeline_def arg_pipeline_def by (rule dict_of_groups)
  then have 1: "map_of (file_access r) (BStr p) =
           (if occurrences ''openat'' ''pathname'' (BStr p) coll = 0 then None
            else Some (occurrences ''openat'' ''pathname'' (BStr p) coll))"
    by (simp only: count_arg_keys[OF assms(2)])
  from ec have "map_of (executed_commands r) (BStr p) =
           (if count_list (arg_keys ''execve'' ''pathname'' coll) (BStr p) = 0 then None
            else Some (count_list (arg_keys ''execve'' ''pathname'' coll) (BStr p)))"
    unfolding exec_pipeline_def arg_pipeline_def by (rule dict_of_groups)
  then have 2: "map_of (executed_commands r) (BStr p) =
           (if occurrences ''execve'' ''pathname'' (BStr p) coll = 0 then None
            else Some (occurrences ''execve'' ''pathname'' (BStr p) coll))"
    by (simp only: count_arg_keys[OF assms(2)])
  from ips_keys[OF assms]
  have 3: "\<forall>k c. (k, c) \<in> set (ips r) \<longrightarrow>
            (\<exists>addr. py_eq k (ip_key repr addr)
                \<and> c = occurrences ''connect'' ''addr'' addr coll \<and> 0 < c)"
    by (elim conjE)
  from dn have "map_of (dns_records r) (BStr p) =
           (if count_list (dns_keys coll) (BStr p) = 0 then None
            else Some (count_list (dns_keys coll) (BStr p)))"
    unfolding dns_pipeline_def by (rule dict_of_groups)
  then have 4: "map_of (dns_records r) (BStr p) =
           (if dns_occurrences (BStr p) coll = 0 then None
            else Some (dns_occurrences (BStr p) coll))"
    by (simp only: count_dns_keys[OF assms(2)])
  from sp have "map_of (syscall_profile r) (BStr p) =
           (if count_list (map (\<lambda>d. group_id (map_of d ''eventName'')) coll) (BStr p) = 0
            then None
            else Some (count_list (map (\<lambda>d. group_id (map_of d ''eventName'')) coll) (BStr p)))"
    unfolding syscall_pipeline_def by (rule dict_of_groups)
  then have 5: "map_of (syscall_profile r) (BStr p) =
           (if length (filter (\<lambda>d. map_of d ''eventName'' = Some (BStr p)) coll) = 0 then None
            else Some (length (filter (\<lambda>d. map_of d ''eventName'' = Some (BStr p)) coll)))"
    by (simp only: count_event_names)
  have 6: "\<forall>event before kvs after v.
             event \<in> set coll
             \<and> map_of event ''args'' = Some (BArr (before @ BDoc kvs # after))
             \<and> map_of kvs ''name'' = Some (BStr ''pathname'')
             \<and> map_of kvs ''value'' = Some (BStr v)
           \<longrightarrow> (map_of event ''eventName'' = Some (BStr ''execve'')
                  \<longrightarrow> event \<in> set (filter (command_query v) coll))
               \<and> (map_of event ''eventName'' = Some (BStr ''openat'')
                  \<longrightarrow> event \<in> set (filter (file_query v) coll))"
    using any_pair_selects by auto
  have 7: "\<forall>event before kvs after qbefore q qafter v.
             event \<in> set coll
             \<and> map_of event ''eventName'' = Some (BStr ''net_packet_dns_request'')
             \<and> map_of event ''args'' = Some (BArr (before @ BDoc kvs # after))
             \<and> map_of kvs ''name'' = Some (BStr ''dns_questions'')
             \<and> map_of kvs ''value'' = Some (BArr (qbefore @ BDoc q # qafter))
             \<and> map_of q ''query'' = Some (BStr v)
           \<longrightarrow> event \<in> set (filter (dns_query v) coll)"
    using any_question_selects by auto
  from 1 2 3 4 5 6 7 show ?thesis by (intro conjI)
qed


text \<open>
  Claim C4, as stated, fails: \<^verbatim>\<open>$unwind\<close> makes one document of every element of
  \<^verbatim>\<open>args\<close>, and every element named \<^verbatim>\<open>pathname\<close> is counted. One file-open event with
  two \<^verbatim>\<open>pathname\<close> pairs for \<^verbatim>\<open>/etc/hosts\<close> counts 2 for that path.
\<close>

theorem get_stats_duplicate_pair_counterexample:
  "get_stats (\<lambda>v. [])
     [''tracee_1'' \<mapsto>
        [[(''eventName'', BStr ''openat''),
          (''args'', BArr [BDoc [(''name'', BStr ''pathname''), (''value'', BStr ''/etc/hosts'')],
                           BDoc [(''name'', BStr ''pathname''), (''value'', BStr ''/etc/hosts'')]])]]]
     ''tracee_1''
   = Inr \<lparr>collection = ''tracee_1'', total_events = 1,
          syscall_profile = [(BStr ''openat'', 1)],
          file_access = [(BStr ''/etc/hosts'', 2)],
          executed_commands = [], ips = [], dns_records = [],
          risk_flags = []\<rparr>"
  by (simp add: get_stats_def pipeline_defs flags_def py_eq_def
      SENSITIVE_PATHS_def SHELL_BINARIES_def)

lemma get_stats_two_pairs:
  "get_stats (\<lambda>v. [])
     [''tracee_1'' \<mapsto>
        [[(''eventName'', BStr ''openat''),
          (''args'', BArr [BDoc [(''name'', BStr ''pathname''), (''value'', BStr ''/tmp/a'')],
                           BDoc [(''name'', BStr ''flags''), (''value'', BInt 0)],
                           BDoc [(''name'', BStr ''pathname''), (''value'', BStr ''/tmp/a'')]])],
         [(''eventName'', BStr ''execve''),
          (''args'', BArr [BDoc [(''name'', BStr ''pathname''), (''value'', BStr ''/bin/ls'')]])]]]
     ''tracee_1''
   = Inr \<lparr>collection = ''tracee_1'', total_events = 2,
          syscall_profile = [(BStr ''openat'', 1), (BStr ''execve'', 1)],
          file_access = [(BStr ''/tmp/a'', 2)],
          executed_commands = [(BStr ''/bin/ls'', 1)], ips = [], dns_records = [],
          risk_flags = []\<rparr>"
  by (simp add: get_stats_def pipeline_defs flags_def py_eq_def
      SENSITIVE_PATHS_def SHELL_BINARIES_def)

theorem get_stats_counts_every_pair_witness:
  "\<exists>r. get_stats (\<lambda>v. [])
     [''tracee_1'' \<mapsto>
        [[(''eventName'', BStr ''openat''),
          (''args'', BArr [BDoc [(''name'', BStr ''pathname''), (''value'', BStr ''/tmp/a'')],
                           BDoc [(''name'', BStr ''flags''), (''value'', BInt 0)],
                           BDoc [(''name'', BStr ''pathname''), (''value'', BStr ''/tmp/a'')]])],
         [(''eventName'', BStr ''execve''),
          (''args'', BArr [BDoc [(''name'', BStr ''pathname''), (''value'', BStr ''/bin/ls'')]])]]]
     ''tracee_1'' = Inr r
   \<and> map_of (file_access r) (BStr ''/tmp/a'') = Some 2
   \<and> map_of (executed_commands r) (BStr ''/tmp/a'') = None"
proof -
  let ?coll = "[[(''eventName'', BStr ''openat''),
          (''args'', BArr [BDoc [(''name'', BStr ''pathname''), (''value'', BStr ''/tmp/a'')],
                           BDoc [(''name'', BStr ''flags''), (''value'', BInt 0)],
                           BDoc [(''name'', BStr ''pathname''), (''value'', BStr ''/tmp/a'')]])],
         [(''eventName'', BStr ''execve''),
          (''args'', BArr [BDoc [(''name'', BStr ''pathname''), (''value'', BStr ''/bin/ls'')]])]]"
  have 1: "[''tracee_1'' \<mapsto> ?coll] ''tracee_1'' = Some ?coll" by simp
  have 2: "list_all event_shaped ?coll"
    by (simp add: event_shaped_def named_pair_def)
  have 3: "occurrences ''openat'' ''pathname'' (BStr ''/tmp/a'') ?coll = 2"
    by (simp add: occurrences_def pair_count_def is_pair_def group_id_def)
  have 4: "occurrences ''execve'' ''pathname'' (BStr ''/tmp/a'') ?coll = 0"
    by (simp add: occurrences_def pair_count_def is_pair_def group_id_def)
  note t = get_stats_counts_every_pair[where db = "[''tracee_1'' \<mapsto> ?coll]"
         and collection_name = "''tracee_1''" and coll = ?coll and repr = "\<lambda>v. []"
         and p = "''/tmp/a''", OF 1 2 get_stats_two_pairs]
  from t[THEN conjunct1] have a: "map_of [(BStr ''/tmp/a'', 2 :: nat)] (BStr ''/tmp/a'') = Some 2"
    by (simp only: 3) simp
  from t[THEN conjunct2, THEN conjunct1]
  have b: "map_of [(BStr ''/bin/ls'', 1 :: nat)] (BStr ''/tmp/a'') = None"
    by (simp only: 4) simp
  show ?thesis
    by (rule exI, rule conjI, rule get_stats_two_pairs) (use a b in simp)
qed

section \<open>Properties of the drill-down\<close>

text \<open>
  Claim C3. The claim asks for one projection for the three kinds of indicator,
  with the parent process id wherever the event has one. The record a DNS query returns
  for an event that has a \<^verbatim>\<open>parentProcessId\<close> carries no parent process id: only the
  command branch of the code projects it.
\<close>

theorem dns_result_without_parent:
  "get_specific_data
     [''tracee_1'' \<mapsto>
        [[(''eventName'', BStr ''net_packet_dns_request''),
          (''processName'', BStr ''curl''),
          (''processId'', BInt 42),
          (''parentProcessId'', BInt 7),
          (''timestamp'', BInt 1700000000),
          (''args'', BArr [BDoc [(''name'', BStr ''dns_questions''),
                                 (''value'', BArr [BDoc [(''query'', BStr ''example.com'')]])]])]]]
     ''tracee_1'' (Some ''example.com'') None None None None
   = Inr (BDoc [(''specific'', BDoc [(''dns_calls'', BDoc [(''example.com'',
       BArr [BDoc [(''process'', BStr ''curl''),
                   (''process_id'', BInt 42),
                   (''executable'', BNull),
                   (''timestamp'', BInt 1700000000),
                   (''args'', BArr [BDoc [(''name'', BStr ''dns_questions''),
                                 (''value'', BArr [BDoc [(''query'', BStr ''example.com'')]])]])]])])])])"
  by (simp add: get_specific_data_def given_def specific_def cursor_def dns_query_def
      matches_eq_def elem_match_def arg_cond_def question_cond_def dns_result_def
      executable_path_def dict_get_def)

lemma given_simps:
  "given None = None" "given (Some []) = None" "given (Some (c # s)) = Some (c # s)"
  by (simp_all add: given_def)

lemma given_Some: "given p = Some s \<Longrightarrow> p = Some s \<and> s \<noteq> []"
  by (auto simp: given_def split: option.splits if_splits)

lemma given_idem: "given p = Some s \<Longrightarrow> given (Some s) = Some s"
  by (auto simp: given_def split: option.splits if_splits)

lemma results_loop_error:
  "results_loop result events = Inl e \<Longrightarrow> \<exists>event \<in> set events. result event = Inl e"
  by (induction events) (auto split: sum.splits)

lemma executable_path_error: "executable_path event = Inl e \<Longrightarrow> e = AttributeError"
  by (auto simp: executable_path_def split: option.splits bson.splits)

lemma result_error:
  "dns_result event = Inl e \<Longrightarrow> e = AttributeError"
  "command_result event = Inl e \<Longrightarrow> e = AttributeError"
  "file_result event = Inl e \<Longrightarrow> e = AttributeError"
  by (auto simp: dns_result_def command_result_def file_result_def split: sum.splits
      dest: executable_path_error)

lemma specific_error:
  "specific kind key query result coll l off = Inl e \<Longrightarrow>
   e = ValueError \<or> (\<exists>event. result event = Inl e)"
  by (auto simp: specific_def cursor_def split: sum.splits if_splits dest: results_loop_error)

text \<open>
  Claim C7, as stated, fails twice. An indicator given as the empty string does not
  count: with \<^verbatim>\<open>dns=""\<close> and a command, the command is honoured, and \<^verbatim>\<open>dns=""\<close> alone is
  refused as a missing indicator. And with no indicator at all, a call on a collection
  that does not exist fails with \<open>CollectionNotFound\<close>, not \<open>MissingIndicator\<close>.
\<close>

theorem get_specific_data_precedence_counterexample:
  "get_specific_data [''tracee_1'' \<mapsto> []] ''tracee_1'' (Some []) (Some ''/bin/ls'') None None None
     = Inr (BDoc [(''specific'', BDoc [(''command_calls'', BDoc [(''/bin/ls'', BArr [])])])])
   \<and> get_specific_data [''tracee_1'' \<mapsto> []] ''tracee_1'' (Some []) None None None None
     = Inl MissingIndicator
   \<and> get_specific_data Map.empty ''tracee_1'' None None None None None = Inl CollectionNotFound"
  by (simp add: get_specific_data_def given_def specific_def cursor_def)

text \<open>
  Claim C7, amended. On a collection that exists, where an indicator counts as supplied
  when it is given and is not the empty string (\<open>given\<close>): with no indicator supplied the
  call fails with \<open>MissingIndicator\<close>; otherwise the first supplied one in the order DNS,
  command, file is honoured and the others are ignored: the outcome is that of the call
  with this indicator alone, and it is never \<open>MissingIndicator\<close>.
\<close>

theorem get_specific_data_precedence:
  assumes "db collection_name = Some coll"
  shows "(given dns = None \<and> given command = None \<and> given file = None \<longrightarrow>
            get_specific_data db collection_name dns command file limit offset
              = Inl MissingIndicator)
       \<and> (\<forall>d. given dns = Some d \<longrightarrow>
            get_specific_data db collection_name dns command file limit offset
              = get_specific_data db collection_name (Some d) None None limit offset
            \<and> get_specific_data db collection_name dns command file limit offset
              \<noteq> Inl MissingIndicator)
       \<and> (\<forall>c. given dns = None \<and> given command = Some c \<longrightarrow>
            get_specific_data db collection_name dns command file limit offset
              = get_specific_data db collection_name None (Some c) None limit offset
            \<and> get_specific_data db collection_name dns command file limit offset
              \<noteq> Inl MissingIndicator)
       \<and> (\<forall>f. given dns = None \<and> given command = None \<and> given file = Some f \<longrightarrow>
            get_specific_data db collection_name dns command file limit offset
              = get_specific_data db collection_name None None (Some f) limit offset
            \<and> get_specific_data db collection_name dns command file limit offset
              \<noteq> Inl MissingIndicator)"
proof -
  have ne: "specific kind key query result coll l off \<noteq> Inl MissingIndicator"
    if "result = dns_result \<or> result = command_result \<or> result = file_result"
    for kind key query result l off
    using that by (auto dest!: specific_error result_error)
  show ?thesis
    using assms ne
    by (auto simp: get_specific_data_def Let_def given_simps dest: given_idem split: option.splits)
qed


theorem get_specific_data_precedence_witness:
  "get_specific_data [''tracee_1'' \<mapsto> []] ''tracee_1'' (Some ''example.com'') (Some ''/bin/ls'') None None None
     = get_specific_data [''tracee_1'' \<mapsto> []] ''tracee_1'' (Some ''example.com'') None None None None
   \<and> get_specific_data [''tracee_1'' \<mapsto> []] ''tracee_1'' (Some ''example.com'') (Some ''/bin/ls'') None None None
     \<noteq> Inl MissingIndicator
   \<and> get_specific_data [''tracee_1'' \<mapsto> []] ''tracee_1'' None None None None None
     = Inl MissingIndicator"
proof -
  let ?db = "[''tracee_1'' \<mapsto> ([] :: doc list)]"
  have ex: "?db ''tracee_1'' = Some []" by simp
  have g: "given (Some ''example.com'') = Some ''example.com''" by (simp add: given_def)
  have n: "given None = None \<and> given None = None \<and> given None = None"
    by (simp add: given_def)
  note t1 = get_specific_data_precedence[of ?db "''tracee_1''" "[]"
      "Some ''example.com''" "Some ''/bin/ls''" None None None, OF ex]
  note t2 = get_specific_data_precedence[of ?db "''tracee_1''" "[]" None None None None None, OF ex]
  from t1[THEN conjunct2, THEN conjunct1, rule_format, OF g]
       t2[THEN conjunct1, rule_format, OF n]
  show ?thesis by (intro conjI) (erule conjunct1, erule conjunct2, assumption)
qed

lemma results_loop_map:
  "results_loop result events = Inr rs \<Longrightarrow> map Inr rs = map result events"
  by (induction events arbitrary: rs) (auto split: sum.splits)

lemma specific_page:
  assumes "0 \<le> lim" "specific kind key query result coll lim off = Inr r"
  shows "\<exists>rs. r = BDoc [(''specific'', BDoc [(kind, BDoc [(key, BArr rs)])])]
            \<and> map Inr rs = map result (if lim = 0 then rest_of query off coll
                                         else page_of query lim off coll)"
  using assms
  by (auto simp: specific_def cursor_def page_of_def rest_of_def split: sum.splits if_splits
      dest: results_loop_map)

lemma rest_of_nth:
  "i < length (rest_of query off coll) \<Longrightarrow>
   rest_of query off coll ! i = filter query coll ! (nat off + i)"
  by (cases "nat off \<le> length (filter query coll)") (simp_all add: rest_of_def)

lemma page_of_nth:
  "i < length (page_of query lim off coll) \<Longrightarrow>
   page_of query lim off coll ! i = filter query coll ! (nat off + i)"
  by (simp add: page_of_def rest_of_nth)

text \<open>
  Claim C8, as stated, fails for \<^verbatim>\<open>limit=0\<close>: the cursor takes a limit of 0 as no limit,
  and the query returns the matching event although at most 0 were asked for.
\<close>

theorem get_specific_data_limit_zero_counterexample:
  "get_specific_data
     [''tracee_1'' \<mapsto>
        [[(''eventName'', BStr ''execve''),
          (''processId'', BInt 1),
          (''args'', BArr [BDoc [(''name'', BStr ''pathname''), (''value'', BStr ''/bin/ls'')]])]]]
     ''tracee_1'' None (Some ''/bin/ls'') None (Some 0) (Some 0)
   = Inr (BDoc [(''specific'', BDoc [(''command_calls'', BDoc [(''/bin/ls'',
       BArr [BDoc [(''process'', BNull),
                   (''process_id'', BInt 1),
                   (''parent_process_id'', BNull),
                   (''executable'', BNull),
                   (''timestamp'', BNull),
                   (''args'', BArr [BDoc [(''name'', BStr ''pathname''),
                                          (''value'', BStr ''/bin/ls'')]])]])])])])"
  by (simp add: get_specific_data_def given_def specific_def cursor_def command_query_def
      matches_eq_def elem_match_def arg_cond_def command_result_def
      executable_path_def dict_get_def)

text \<open>
  Claim C8, amended. Let \<open>lim\<close> and \<open>off\<close> be the limit and the offset of the request, 50
  and 0 where the request leaves one out. For \<open>lim\<close> of at least 1, every drill-down
  query that returns, returns the projections of the events of \<open>page_of\<close>, in order: the
  matching events in stored order without the first \<open>off\<close> ones, cut after \<open>lim\<close>. For
  \<open>lim = 0\<close> it returns the projections of all the matching events after the first
  \<open>off\<close> ones. A page has at most \<open>lim\<close> events, and the \<open>i\<close>-th event of either list is
  the match of index \<open>off + i\<close>.
\<close>

theorem get_specific_data_page:
  assumes "db collection_name = Some coll"
    and "lim = (case limit of None \<Rightarrow> 50 | Some n \<Rightarrow> n)"
    and "off = (case offset of None \<Rightarrow> 0 | Some n \<Rightarrow> n)"
    and "0 \<le> lim"
  shows "(\<forall>d r. given dns = Some d \<and>
            get_specific_data db collection_name dns command file limit offset = Inr r
          \<longrightarrow> (\<exists>rs. r = BDoc [(''specific'', BDoc [(''dns_calls'', BDoc [(d, BArr rs)])])]
                 \<and> map Inr rs = map dns_result
                       (if lim = 0 then rest_of (dns_query d) off coll
                        else page_of (dns_query d) lim off coll)))
       \<and> (\<forall>c r. given dns = None \<and> given command = Some c \<and>
            get_specific_data db collection_name dns command file limit offset = Inr r
          \<longrightarrow> (\<exists>rs. r = BDoc [(''specific'', BDoc [(''command_calls'', BDoc [(c, BArr rs)])])]
                 \<and> map Inr rs = map command_result
                       (if lim = 0 then rest_of (command_query c) off coll
                        else page_of (command_query c) lim off coll)))
       \<and> (\<forall>f r. given dns = None \<and> given command = None \<and> given file = Some f \<and>
            get_specific_data db collection_name dns command file limit offset = Inr r
          \<longrightarrow> (\<exists>rs. r = BDoc [(''specific'', BDoc [(''file_access'', BDoc [(f, BArr rs)])])]
                 \<and> map Inr rs = map file_result
                       (if lim = 0 then rest_of (file_query f) off coll
                        else page_of (file_query f) lim off coll)))
       \<and> (\<forall>query. length (page_of query lim off coll) \<le> nat lim
             \<and> (\<forall>i < length (page_of query lim off coll).
                   page_of query lim off coll ! i = filter query coll ! (nat off + i))
             \<and> (\<forall>i < length (rest_of query off coll).
                   rest_of query off coll ! i = filter query coll ! (nat off + i)))"
proof (intro conjI allI impI)
  fix d r
  assume "given dns = Some d \<and>
      get_specific_data db collection_name dns command file limit offset = Inr r"
  with assms(1,2,3)
  have "specific ''dns_calls'' d (dns_query d) dns_result coll lim off = Inr r"
    by (auto simp: get_specific_data_def)
  from specific_page[OF assms(4) this]
  show "\<exists>rs. r = BDoc [(''specific'', BDoc [(''dns_calls'', BDoc [(d, BArr rs)])])]
          \<and> map Inr rs = map dns_result
                (if lim = 0 then rest_of (dns_query d) off coll
                 else page_of (dns_query d) lim off coll)" .
next
  fix c r
  assume "given dns = None \<and> given command = Some c \<and>
      get_specific_data db collection_name dns command file limit offset = Inr r"
  with assms(1,2,3)
  have "specific ''command_calls'' c (command_query c) command_result coll lim off = Inr r"
    by (auto simp: get_specific_data_def)
  from specific_page[OF assms(4) this]
  show "\<exists>rs. r = BDoc [(''specific'', BDoc [(''command_calls'', BDoc [(c, BArr rs)])])]
          \<and> map Inr rs = map command_result
                (if lim = 0 then rest_of (command_query c) off coll
                 else page_of (command_query c) lim off coll)" .
next
  fix f r
  assume "given dns = None \<and> given command = None \<and> given file = Some f \<and>
      get_specific_data db collection_name dns command file limit offset = Inr r"
  with assms(1,2,3)
  have "specific ''file_access'' f (file_query f) file_result coll lim off = Inr r"
    by (auto simp: get_specific_data_def)
  from specific_page[OF assms(4) this]
  show "\<exists>rs. r = BDoc [(''specific'', BDoc [(''file_access'', BDoc [(f, BArr rs)])])]
          \<and> map Inr rs = map file_result
                (if lim = 0 then rest_of (file_query f) off coll
                 else page_of (file_query f) lim off coll)" .
next
  fix query
  show "length (page_of query lim off coll) \<le> nat lim"
    by (simp add: page_of_def)
next
  fix query i
  assume "i < length (page_of query lim off coll)"
  then show "page_of query lim off coll ! i = filter query coll ! (nat off + i)"
    by (rule page_of_nth)
next
  fix query i
  assume "i < length (rest_of query off coll)"
  then show "rest_of query off coll ! i = filter query coll ! (nat off + i)"
    by (rule rest_of_nth)
qed

theorem get_specific_data_page_witness:
  "get_specific_data
     [''tracee_1'' \<mapsto>
        [[(''eventName'', BStr ''execve''), (''processId'', BInt 10),
          (''args'', BArr [BDoc [(''name'', BStr ''pathname''), (''value'', BStr ''/bin/ls'')]])],
         [(''eventName'', BStr ''execve''), (''processId'', BInt 11),
          (''args'', BArr [BDoc [(''name'', BStr ''pathname''), (''value'', BStr ''/bin/ls'')]])],
         [(''eventName'', BStr ''openat''), (''processId'', BInt 99),
          (''args'', BArr [BDoc [(''name'', BStr ''pathname''), (''value'', BStr ''/bin/ls'')]])],
         [(''eventName'', BStr ''execve''), (''processId'', BInt 12),
          (''args'', BArr [BDoc [(''name'', BStr ''pathname''), (''value'', BStr ''/bin/ls'')]])],
         [(''eventName'', BStr ''execve''), (''processId'', BInt 13),
          (''args'', BArr [BDoc [(''name'', BStr ''pathname''), (''value'', BStr ''/bin/ls'')]])],
         [(''eventName'', BStr ''execve''), (''processId'', BInt 14),
          (''args'', BArr [BDoc [(''name'', BStr ''pathname''), (''value'', BStr ''/bin/ls'')]])]]]
     ''tracee_1'' None (Some ''/bin/ls'') None (Some 2) (Some 1)
   = Inr (BDoc [(''specific'', BDoc [(''command_calls'', BDoc [(''/bin/ls'',
       BArr [BDoc [(''process'', BNull), (''process_id'', BInt 11),
                   (''parent_process_id'', BNull), (''executable'', BNull),
                   (''timestamp'', BNull),
                   (''args'', BArr [BDoc [(''name'', BStr ''pathname''),
                                          (''value'', BStr ''/bin/ls'')]])],
             BDoc [(''process'', BNull), (''process_id'', BInt 12),
                   (''parent_process_id'', BNull), (''executable'', BNull),
                   (''timestamp'', BNull),
                   (''args'', BArr [BDoc [(''name'', BStr ''pathname''),
                                          (''value'', BStr ''/bin/ls'')]])]])])])])"
proof -
  let ?coll =
       "[[(''eventName'', BStr ''execve''), (''processId'', BInt 10),
          (''args'', BArr [BDoc [(''name'', BStr ''pathname''), (''value'', BStr ''/bin/ls'')]])],
         [(''eventName'', BStr ''execve''), (''processId'', BInt 11),
          (''args'', BArr [BDoc [(''name'', BStr ''pathname''), (''value'', BStr ''/bin/ls'')]])],
         [(''eventName'', BStr ''openat''), (''processId'', BInt 99),
          (''args'', BArr [BDoc [(''name'', BStr ''pathname''), (''value'', BStr ''/bin/ls'')]])],
         [(''eventName'', BStr ''execve''), (''processId'', BInt 12),
          (''args'', BArr [BDoc [(''name'', BStr ''pathname''), (''value'', BStr ''/bin/ls'')]])],
         [(''eventName'', BStr ''execve''), (''processId'', BInt 13),
          (''args'', BArr [BDoc [(''name'', BStr ''pathname''), (''value'', BStr ''/bin/ls'')]])],
         [(''eventName'', BStr ''execve''), (''processId'', BInt 14),
          (''args'', BArr [BDoc [(''name'', BStr ''pathname''), (''value'', BStr ''/bin/ls'')]])]]"
  have 1: "[''tracee_1'' \<mapsto> ?coll] ''tracee_1'' = Some ?coll" by simp
  have 2: "(2 :: int) = (case Some 2 of None \<Rightarrow> 50 | Some n \<Rightarrow> n)" by simp
  have 3: "(1 :: int) = (case Some 1 of None \<Rightarrow> 0 | Some n \<Rightarrow> n)" by simp
  have 4: "(0 :: int) \<le> 2" by simp
  note t = get_specific_data_page[where db = "[''tracee_1'' \<mapsto> ?coll]"
      and collection_name = "''tracee_1''" and coll = ?coll and lim = 2 and off = 1
      and limit = "Some 2" and offset = "Some 1"
      and dns = None and command = "Some ''/bin/ls''", OF 1 2 3 4]
  show ?thesis
    using t
    by (simp add: get_specific_data_def given_def specific_def cursor_def command_query_def
        matches_eq_def elem_match_def arg_cond_def command_result_def
        executable_path_def dict_get_def)
qed

end
